theory Spec2Isabelle
  imports Complex_Main "HOL-Library.Word"
begin

section \<open>The trans\_city engine (src/trans\_city/TransCity.cc)\<close>

text \<open>
  A shallow embedding of class \<open>TransCity\<close>. The engine's own members are a record; every
  method takes the engine and returns the updated one. C++ \<open>int\<close> has 32 bits: the values
  are modelled by \<open>int\<close>, and where the source adds or subtracts configured or injected
  values (the feature size, the interval of a light, the difference to the goal) the result
  is wrapped to 32 bits, as the compiled code does; list lengths and flat buffer indices,
  which are bounded by what fits in memory, are not wrapped. The output of the random
  engine is a 32-bit word and its cast to \<open>int\<close> reads it as two's complement. \<open>float\<close>
  values are modelled by the reals they denote, and the conversion of an \<open>int\<close> to \<open>float\<close>
  rounds as the machine does. Undefined behaviour of the C++ (a read or write outside a
  buffer, the use or the second deletion of a deleted agent, a remainder by zero or of
  \<open>INT_MIN\<close> by \<open>-1\<close>) and \<open>LOG(FATAL)\<close> are error values. Of the loops marked
  \<open>omp parallel for\<close>, the one of \<open>get_observation\<close> takes the order of its rounds as a
  parameter; in the others round \<open>i\<close> reads agent \<open>i\<close> and writes entry \<open>i\<close> only, and they
  run in index order. The destructor and the two rendering methods, which only call the
  renderer, are left out.
\<close>

subsection \<open>Data\<close>

datatype error = Fatal string | OutOfBounds | UseAfterFree | DivisionByZero | RemainderOverflow

text \<open>Modelled from the spec: struct \<open>Position\<close> (declared outside this file), an integer
  grid coordinate \<open>(x, y)\<close>.\<close>

record Position =
  pos_x :: int
  pos_y :: int

text \<open>Modelled from the spec: class \<open>Agent\<close> (declared outside this file): id, current
  position, goal position, last action, last reward, reward accumulator, opaque embedding
  and the dead flag.\<close>

record Agent =
  a_id :: int
  a_pos :: Position
  a_goal :: Position
  a_action :: int
  a_last_reward :: real
  a_reward :: real
  a_embedding :: "nat \<Rightarrow> real"
  a_dead :: bool

text \<open>Modelled from the spec: the registries' element classes (declared outside this
  file), holding what their constructors are given; a light also has its elapsed-tick
  counter.\<close>

record TrafficLight =
  l_pos :: Position
  l_orientation :: int
  l_offset :: int
  l_interval :: int
  l_elapsed :: int

record Park =
  p_pos :: Position
  p_width :: int
  p_height :: int

record Building =
  b_pos :: Position
  b_width :: int
  b_height :: int

text \<open>Agents live on the heap and the engine holds pointers to them. An address is an
  index into the store; \<open>new\<close> extends the store, \<open>delete\<close> empties the slot, so that a
  pointer to a deleted agent dangles. Reading through a dangling pointer, and deleting it
  again, is an error.\<close>

type_synonym addr = nat
type_synonym store = "Agent option list"

text \<open>Class \<open>Map\<close> is declared outside this file. The calls that change it are recorded
  in the order the engine makes them; the two calls that read it are parameters below.\<close>

datatype map_call =
    MapReset "Position list" int int
  | AddWall Position
  | AddLight Position int int
  | AddPark Position
  | AddAgent addr

text \<open>What the engine uses and this file does not define: the two enum constants, the
  three-index access of a two-dimensional \<open>NDPointer\<close>, the random engine (its state is
  \<open>'r\<close>; a call returns 32 bits and the next state), and the reading calls of the map.\<close>

record 'r deps =
  ACT_NUM :: int
  CHANNEL_NUM :: int
  nd_at3 :: "int list \<Rightarrow> int \<Rightarrow> int \<Rightarrow> int \<Rightarrow> int"
  engine_seed :: "int \<Rightarrow> 'r"
  engine_draw :: "'r \<Rightarrow> 32 word \<times> 'r"
  get_random_blank :: "map_call list \<Rightarrow> 'r \<Rightarrow> Position \<times> 'r"
  extract_view :: "map_call list \<Rightarrow> store \<Rightarrow> Agent \<Rightarrow> int \<Rightarrow> int \<Rightarrow> int \<Rightarrow> int \<Rightarrow> real list \<Rightarrow> real list"

record 'r TransCity =
  width :: int
  height :: int
  view_width :: int
  view_height :: int
  embedding_size :: int
  interval_min :: int
  interval_max :: int
  id_counter :: int
  random_engine :: 'r
  city_map :: "map_call list"
  walls :: "Position list"
  lights :: "TrafficLight list"
  parks :: "Park list"
  buildings :: "Building list"
  agents :: "addr list"
  heap :: store
  render_config :: "(string \<times> string) list"

subsection \<open>Helpers: errors, loops, buffers, the heap\<close>

definition bindE :: "error + 'a \<Rightarrow> ('a \<Rightarrow> error + 'b) \<Rightarrow> error + 'b" where
  "bindE m f = (case m of Inl e \<Rightarrow> Inl e | Inr v \<Rightarrow> f v)"

text \<open>\<open>for (i = ...) body\<close> over the given indices, stopping at the first error.\<close>

fun iterate :: "nat list \<Rightarrow> (nat \<Rightarrow> 's \<Rightarrow> error + 's) \<Rightarrow> 's \<Rightarrow> error + 's" where
  "iterate [] body s = Inr s"
| "iterate (i # is) body s =
     (case body i s of Inl e \<Rightarrow> Inl e | Inr s' \<Rightarrow> iterate is body s')"

text \<open>\<open>for (int i = 0; i < n; i++)\<close>: no round when \<open>n \<le> 0\<close>.\<close>

definition for_upto :: "int \<Rightarrow> (nat \<Rightarrow> 's \<Rightarrow> error + 's) \<Rightarrow> 's \<Rightarrow> error + 's" where
  "for_upto n body s = iterate [0..<nat n] body s"

text \<open>A read at a flat index of a caller's buffer.\<close>

definition rd :: "'a list \<Rightarrow> int \<Rightarrow> error + 'a" where
  "rd buf k = (if 0 \<le> k \<and> k < int (length buf) then Inr (buf ! nat k) else Inl OutOfBounds)"

definition wr :: "'a list \<Rightarrow> int \<Rightarrow> 'a \<Rightarrow> error + 'a list" where
  "wr buf k v = (if 0 \<le> k \<and> k < int (length buf) then Inr (buf[nat k := v]) else Inl OutOfBounds)"

text \<open>Modelled from the spec: \<open>NDPointer<T, 2>::at(i, j)\<close> over a flat, row-major buffer
  with \<open>cols\<close> entries per row.\<close>

definition at2 :: "int \<Rightarrow> 'a list \<Rightarrow> int \<Rightarrow> int \<Rightarrow> error + 'a" where
  "at2 cols buf i j = rd buf (i * cols + j)"

definition deref :: "store \<Rightarrow> addr \<Rightarrow> error + Agent" where
  "deref h a =
     (if a < length h then (case h ! a of None \<Rightarrow> Inl UseAfterFree | Some ag \<Rightarrow> Inr ag)
      else Inl UseAfterFree)"

definition new_agent :: "store \<Rightarrow> Agent \<Rightarrow> addr \<times> store" where
  "new_agent h ag = (length h, h @ [Some ag])"

definition delete_agent :: "store \<Rightarrow> addr \<Rightarrow> error + store" where
  "delete_agent h a = (case deref h a of Inl e \<Rightarrow> Inl e | Inr ag \<Rightarrow> Inr (h[a := None]))"

text \<open>The remainder of C++ \<open>%\<close> on \<open>int\<close>: the quotient is truncated towards zero, so the
  remainder has the sign of the dividend.\<close>

definition c_rem :: "int \<Rightarrow> int \<Rightarrow> int" where
  "c_rem a b = sgn a * (\<bar>a\<bar> mod \<bar>b\<bar>)"

text \<open>The value a 32-bit two's complement \<open>int\<close> holds after an addition or subtraction
  whose exact result is \<open>v\<close>.\<close>

definition wrap32 :: "int \<Rightarrow> int" where
  "wrap32 v = (v + 2147483648) mod 4294967296 - 2147483648"

text \<open>The conversion of an \<open>int\<close> to \<open>float\<close>: a float has a significand of 24 bits, so a
  magnitude below \<open>2^24\<close> is kept, and a larger one is rounded to the nearest multiple of
  the spacing of the floats around it, to the even one of two equally near.\<close>

function float_ulp :: "nat \<Rightarrow> nat" where
  "float_ulp a = (if a < 16777216 then 1 else 2 * float_ulp (a div 2))"
  by pat_completeness auto
termination
  by (relation "measure id") auto

declare float_ulp.simps [simp del]

definition float_of_int :: "int \<Rightarrow> real" where
  "float_of_int v =
     (let a = nat \<bar>v\<bar>; u = float_ulp a; q = a div u; r = a mod u;
          q' = (if u < 2 * r \<or> (2 * r = u \<and> odd q) then q + 1 else q)
      in real_of_int (sgn v * int (q' * u)))"

subsection \<open>Class Agent\<close>

text \<open>Modelled from the spec: the constructor \<open>Agent(id_counter)\<close> (class \<open>Agent\<close> is
  declared outside this file). The spec gives every agent a "unique monotonically
  increasing id (assigned at creation, never reused)"; \<open>add_object\<close> hands the constructor
  the engine's counter and never advances it itself, so the constructor takes the current
  count as the id and advances the counter. The new agent is alive; its other members
  start at zero.\<close>

definition Agent_new :: "int \<Rightarrow> Agent \<times> int" where
  "Agent_new counter =
     (\<lparr>a_id = counter,
       a_pos = \<lparr>pos_x = 0, pos_y = 0\<rparr>,
       a_goal = \<lparr>pos_x = 0, pos_y = 0\<rparr>,
       a_action = 0,
       a_last_reward = 0,
       a_reward = 0,
       a_embedding = (\<lambda>k. 0),
       a_dead = False\<rparr>,
      counter + 1)"

text \<open>Modelled from the spec: \<open>Agent::init_reward\<close> resets the reward accumulator "to a
  neutral value for the next tick".\<close>

definition neutral_reward :: real where
  "neutral_reward = 0"

definition init_reward :: "Agent \<Rightarrow> Agent" where
  "init_reward ag = ag\<lparr>a_reward := neutral_reward\<rparr>"

definition is_dead :: "Agent \<Rightarrow> bool" where
  "is_dead ag = a_dead ag"

definition set_pos :: "Position \<Rightarrow> Agent \<Rightarrow> Agent" where
  "set_pos p ag = ag\<lparr>a_pos := p\<rparr>"

subsection \<open>Construction, reset and configuration\<close>

text \<open>The constructor sets five members and seeds the engine; the vectors start empty;
  \<open>id_counter\<close> and the view sizes are left uninitialised (parameters here).\<close>

definition TransCity_new :: "'r deps \<Rightarrow> int \<Rightarrow> int \<Rightarrow> int \<Rightarrow> 'r TransCity" where
  "TransCity_new d id0 vw0 vh0 =
     \<lparr>width = 100, height = 100, view_width = vw0, view_height = vh0,
      embedding_size = 16, interval_min = 10, interval_max = 20,
      id_counter = id0, random_engine = engine_seed d 0,
      city_map = [], walls = [], lights = [], parks = [], buildings = [],
      agents = [], heap = [], render_config = []\<rparr>"

text \<open>\<open>reset\<close>: the counter returns to zero, the map is rebuilt from the recorded walls,
  and every agent is deleted. The vector of pointers itself is left as it is.\<close>

definition reset :: "'r TransCity \<Rightarrow> error + 'r TransCity" where
  "reset s =
     (let s1 = s\<lparr>id_counter := 0\<rparr>;
          s2 = s1\<lparr>city_map := city_map s1 @ [MapReset (walls s1) (width s1) (height s1)]\<rparr>
      in bindE (iterate [0..<length (agents s2)] (\<lambda>i h. delete_agent h (agents s2 ! i)) (heap s2))
           (\<lambda>h. Inr (s2\<lparr>heap := h\<rparr>)))"

definition set_config :: "'r deps \<Rightarrow> 'r TransCity \<Rightarrow> string \<Rightarrow> int \<Rightarrow> string \<Rightarrow> error + 'r TransCity" where
  "set_config d s key ivalue strvalue =
     (if key = ''map_width'' then Inr (s\<lparr>width := ivalue\<rparr>)
      else if key = ''map_height'' then Inr (s\<lparr>height := ivalue\<rparr>)
      else if key = ''view_width'' then Inr (s\<lparr>view_width := ivalue\<rparr>)
      else if key = ''view_height'' then Inr (s\<lparr>view_height := ivalue\<rparr>)
      else if key = ''interval_min'' then Inr (s\<lparr>interval_min := ivalue\<rparr>)
      else if key = ''interval_max'' then Inr (s\<lparr>interval_max := ivalue\<rparr>)
      else if key = ''embedding_size'' then Inr (s\<lparr>embedding_size := ivalue\<rparr>)
      else if key = ''render_dir'' then
        Inr (s\<lparr>render_config := render_config s @ [(''save_dir'', strvalue)]\<rparr>)
      else if key = ''seed'' then Inr (s\<lparr>random_engine := engine_seed d ivalue\<rparr>)
      else Inl (Fatal (''invalid argument in TransCity::set_config: '' @ key)))"

subsection \<open>add\_object\<close>

text \<open>One round of the wall loop: the map is told the cell \<open>(buf.at(i, 0), buf.at(i, 1))\<close>;
  the recorded wall is \<open>Position{buf.at(i, 0, buf.at(i, 1))}\<close>, a position built from one
  initialiser, so its second member is zero.\<close>

definition add_wall_row :: "'r deps \<Rightarrow> int list \<Rightarrow> nat \<Rightarrow> 'r TransCity \<Rightarrow> error + 'r TransCity" where
  "add_wall_row d buf i s =
     bindE (at2 2 buf (int i) 0) (\<lambda>x0.
     bindE (at2 2 buf (int i) 1) (\<lambda>y0.
     bindE (at2 2 buf (int i) 1) (\<lambda>y1.
       Inr (s\<lparr>city_map := city_map s @ [AddWall \<lparr>pos_x = x0, pos_y = y0\<rparr>],
              walls := walls s @ [\<lparr>pos_x = nd_at3 d buf (int i) 0 y1, pos_y = 0\<rparr>]\<rparr>))))"

text \<open>The interval of a new light:
  \<open>static_cast<int>(random_engine()) % (interval_max - interval_min) + interval_min\<close>.\<close>

definition interval_of :: "int \<Rightarrow> int \<Rightarrow> 32 word \<Rightarrow> int" where
  "interval_of lo hi r = wrap32 (c_rem (sint r) (wrap32 (hi - lo)) + lo)"

definition draw_interval :: "'r deps \<Rightarrow> 'r TransCity \<Rightarrow> error + (int \<times> 'r)" where
  "draw_interval d s =
     (let (r, e) = engine_draw d (random_engine s);
          m = wrap32 (interval_max s - interval_min s)
      in if m = 0 then Inl DivisionByZero
         else if sint r = - 2147483648 \<and> m = - 1 then Inl RemainderOverflow
         else Inr (interval_of (interval_min s) (interval_max s) r, e))"

definition add_light_row :: "'r deps \<Rightarrow> int list \<Rightarrow> nat \<Rightarrow> 'r TransCity \<Rightarrow> error + 'r TransCity" where
  "add_light_row d buf i s =
     bindE (at2 4 buf (int i) 0) (\<lambda>x0.
     bindE (at2 4 buf (int i) 1) (\<lambda>y0.
     bindE (at2 4 buf (int i) 2) (\<lambda>w.
     bindE (at2 4 buf (int i) 3) (\<lambda>h.
       let pos = \<lparr>pos_x = x0, pos_y = y0\<rparr>;
           s1 = s\<lparr>city_map := city_map s @ [AddLight pos w h]\<rparr>
       in bindE (draw_interval d s1) (\<lambda>(interval, e).
            Inr (s1\<lparr>random_engine := e,
                    lights := lights s1 @
                      [\<lparr>l_pos = pos, l_orientation = w, l_offset = h,
                        l_interval = interval, l_elapsed = 0\<rparr>]\<rparr>))))))"

definition add_park_row :: "int list \<Rightarrow> nat \<Rightarrow> 'r TransCity \<Rightarrow> error + 'r TransCity" where
  "add_park_row buf i s =
     bindE (at2 4 buf (int i) 0) (\<lambda>x0.
     bindE (at2 4 buf (int i) 1) (\<lambda>y0.
     bindE (at2 4 buf (int i) 2) (\<lambda>w.
     bindE (at2 4 buf (int i) 3) (\<lambda>h.
       let pos = \<lparr>pos_x = x0, pos_y = y0\<rparr>
       in Inr (s\<lparr>city_map := city_map s @ [AddPark pos],
                 parks := parks s @ [\<lparr>p_pos = pos, p_width = w, p_height = h\<rparr>]\<rparr>)))))"

text \<open>The cells of a building, in the order of the two nested loops.\<close>

definition building_cells :: "int \<Rightarrow> int \<Rightarrow> int \<Rightarrow> int \<Rightarrow> Position list" where
  "building_cells x0 y0 w h =
     concat (map (\<lambda>cx. map (\<lambda>cy. \<lparr>pos_x = cx, pos_y = cy\<rparr>) [y0..y0 + h - 1]) [x0..x0 + w - 1])"

definition add_building_row :: "int list \<Rightarrow> nat \<Rightarrow> 'r TransCity \<Rightarrow> error + 'r TransCity" where
  "add_building_row buf i s =
     bindE (at2 4 buf (int i) 0) (\<lambda>x0.
     bindE (at2 4 buf (int i) 1) (\<lambda>y0.
     bindE (at2 4 buf (int i) 2) (\<lambda>w.
     bindE (at2 4 buf (int i) 3) (\<lambda>h.
       Inr (s\<lparr>city_map := city_map s @ map AddWall (building_cells x0 y0 w h),
              buildings := buildings s @
                [\<lparr>b_pos = \<lparr>pos_x = x0, pos_y = y0\<rparr>, b_width = w, b_height = h\<rparr>]\<rparr>)))))"

text \<open>A new car at position \<open>p\<close>: \<open>new Agent(id_counter)\<close>, \<open>set_pos\<close>, \<open>map.add_agent\<close>,
  \<open>push_back\<close>. The source computes \<open>p\<close> between \<open>new\<close> and \<open>set_pos\<close>; neither the
  constructor nor the allocation touches the buffer, the map or the random engine, so \<open>p\<close>
  is the same when it is computed first, as it is here.\<close>

definition place_agent :: "Position \<Rightarrow> 'r TransCity \<Rightarrow> 'r TransCity" where
  "place_agent p s =
     (let (ag, c) = Agent_new (id_counter s);
          (a, h) = new_agent (heap s) ag;
          h' = h[a := Some (set_pos p ag)]
      in s\<lparr>id_counter := c, heap := h',
           city_map := city_map s @ [AddAgent a],
           agents := agents s @ [a]\<rparr>)"

definition add_car_random :: "'r deps \<Rightarrow> nat \<Rightarrow> 'r TransCity \<Rightarrow> error + 'r TransCity" where
  "add_car_random d i s =
     (let (p, e) = get_random_blank d (city_map s) (random_engine s)
      in Inr (place_agent p (s\<lparr>random_engine := e\<rparr>)))"

definition add_car_custom :: "int list \<Rightarrow> nat \<Rightarrow> 'r TransCity \<Rightarrow> error + 'r TransCity" where
  "add_car_custom buf i s =
     bindE (at2 2 buf (int i) 0) (\<lambda>x0.
     bindE (at2 2 buf (int i) 1) (\<lambda>y0.
       Inr (place_agent \<lparr>pos_x = x0, pos_y = y0\<rparr> s)))"

definition add_object ::
  "'r deps \<Rightarrow> 'r TransCity \<Rightarrow> int \<Rightarrow> int \<Rightarrow> string \<Rightarrow> int list \<Rightarrow> error + 'r TransCity" where
  "add_object d s obj_id n method linear_buffer =
     (if obj_id = -1 then
        (if method = ''custom'' then for_upto n (add_wall_row d linear_buffer) s else Inr s)
      else if obj_id = -2 then
        (if method = ''custom'' then for_upto n (add_light_row d linear_buffer) s else Inr s)
      else if obj_id = -3 then
        (if method = ''custom'' then for_upto n (add_park_row linear_buffer) s else Inr s)
      else if obj_id = -4 then
        (if method = ''custom'' then for_upto n (add_building_row linear_buffer) s else Inr s)
      else if obj_id = 0 then
        (if method = ''random'' then for_upto n (add_car_random d) s
         else if method = ''custom'' then for_upto n (add_car_custom linear_buffer) s
         else Inl (Fatal (''unsupported method in TransCity::add_object: '' @ method)))
      else Inr s)"

subsection \<open>Observation, actions, rewards\<close>

definition get_feature_size :: "'r deps \<Rightarrow> 'r TransCity \<Rightarrow> int \<Rightarrow> int" where
  "get_feature_size d s grp = wrap32 (wrap32 (wrap32 (embedding_size s + ACT_NUM d) + 1) + 2)"

text \<open>\<open>memset(buf, 0, sizeof(float) * count)\<close>.\<close>

definition zero_fill :: "real list \<Rightarrow> int \<Rightarrow> error + real list" where
  "zero_fill buf count =
     (if 0 \<le> count \<and> count \<le> int (length buf)
      then Inr (replicate (nat count) 0 @ drop (nat count) buf)
      else Inl OutOfBounds)"

text \<open>Modelled from the spec: \<open>Agent::get_embedding(buf, size)\<close> stores the agent's
  embedding, \<open>size\<close> floats, from \<open>buf\<close> on.\<close>

definition get_embedding :: "Agent \<Rightarrow> int \<Rightarrow> int \<Rightarrow> real list \<Rightarrow> error + real list" where
  "get_embedding ag off sz fb =
     iterate [0..<nat sz] (\<lambda>k b. wr b (off + int k) (a_embedding ag k)) fb"

text \<open>The difference to the goal in one coordinate, as it is stored: an \<open>int\<close> subtraction,
  converted to \<open>float\<close>.\<close>

definition goal_diff :: "int \<Rightarrow> int \<Rightarrow> real" where
  "goal_diff p g = float_of_int (wrap32 (p - g))"

text \<open>One round of the observation loop, on the pair of the view and the feature buffer.
  \<open>feature_buffer.at(i, j)\<close> is the flat index \<open>i * feature_size + j\<close>.\<close>

definition observe_agent ::
  "'r deps \<Rightarrow> 'r TransCity \<Rightarrow> int \<Rightarrow> nat \<Rightarrow> real list \<times> real list \<Rightarrow> error + (real list \<times> real list)" where
  "observe_agent d s fs i bufs =
     bindE (deref (heap s) (agents s ! i)) (\<lambda>ag.
       let vh = view_height s; vw = view_width s; nc = CHANNEL_NUM d;
           es = embedding_size s; na = ACT_NUM d;
           row = int i * fs;
           vb = extract_view d (city_map s) (heap s) ag (int i * vh * vw * nc) vh vw nc (fst bufs)
       in bindE (get_embedding ag row es (snd bufs)) (\<lambda>fb1.
          bindE (wr fb1 (row + (es + a_action ag)) 1) (\<lambda>fb2.
          bindE (wr fb2 (row + (es + na)) (a_last_reward ag)) (\<lambda>fb3.
          bindE (wr fb3 (row + (es + na + 1))
                   (goal_diff (pos_x (a_pos ag)) (pos_x (a_goal ag)))) (\<lambda>fb4.
          bindE (wr fb4 (row + (es + na + 2))
                   (goal_diff (pos_y (a_pos ag)) (pos_y (a_goal ag)))) (\<lambda>fb5.
            Inr (vb, fb5)))))))"

text \<open>\<open>get_observation\<close>: the two buffers are zeroed, then the rounds of the parallel loop
  run. \<open>sched\<close> is the order in which the rounds run, a list of the indices below
  \<open>agents.size()\<close> with each index once (\<open>schedule\<close> below); a property that holds for
  every schedule does not depend on how the rounds are spread over the threads, as long as
  no two rounds write the same entry.\<close>

definition get_observation ::
  "'r deps \<Rightarrow> 'r TransCity \<Rightarrow> int \<Rightarrow> nat list \<Rightarrow> real list \<times> real list
     \<Rightarrow> error + (real list \<times> real list)" where
  "get_observation d s grp sched linear_buffers =
     (let n_channel = CHANNEL_NUM d;
          feature_size = get_feature_size d s grp;
          agent_size = length (agents s)
      in bindE (zero_fill (fst linear_buffers)
                  (int agent_size * view_height s * view_width s * n_channel)) (\<lambda>vb.
         bindE (zero_fill (snd linear_buffers) (int agent_size * feature_size)) (\<lambda>fb.
           iterate sched (observe_agent d s feature_size) (vb, fb))))"

definition schedule :: "nat \<Rightarrow> nat list \<Rightarrow> bool" where
  "schedule n sched = (distinct sched \<and> set sched = {0..<n})"

definition set_action :: "'r TransCity \<Rightarrow> int \<Rightarrow> int list \<Rightarrow> error + 'r TransCity" where
  "set_action s grp actions =
     iterate [0..<length (agents s)]
       (\<lambda>i s'. bindE (deref (heap s') (agents s' ! i)) (\<lambda>ag.
                bindE (rd actions (int i)) (\<lambda>act.
                  Inr (s'\<lparr>heap := (heap s')[agents s' ! i := Some (ag\<lparr>a_action := act\<rparr>)]\<rparr>))))
       s"

definition get_reward :: "'r TransCity \<Rightarrow> int \<Rightarrow> real list \<Rightarrow> error + real list" where
  "get_reward s grp buffer =
     iterate [0..<length (agents s)]
       (\<lambda>i b. bindE (deref (heap s) (agents s ! i)) (\<lambda>ag. wr b (int i) (a_reward ag)))
       buffer"

subsection \<open>step and clear\_dead\<close>

text \<open>\<open>step(int *done)\<close> has an empty body.\<close>

definition step :: "'r TransCity \<Rightarrow> int \<Rightarrow> 'r TransCity \<times> int" where
  "step s done = (s, done)"

text \<open>One round of the compaction loop, on \<open>(pt, agents, heap)\<close>.\<close>

definition clear_dead_round ::
  "nat \<Rightarrow> nat \<times> addr list \<times> store \<Rightarrow> error + (nat \<times> addr list \<times> store)" where
  "clear_dead_round j st =
     (case st of (pt, ags, h) \<Rightarrow>
        bindE (deref h (ags ! j)) (\<lambda>agent.
          if is_dead agent then bindE (delete_agent h (ags ! j)) (\<lambda>h'. Inr (pt, ags, h'))
          else Inr (Suc pt, ags[pt := ags ! j], h[ags ! j := Some (init_reward agent)])))"

definition clear_dead :: "'r TransCity \<Rightarrow> error + 'r TransCity" where
  "clear_dead s =
     bindE (iterate [0..<length (agents s)] clear_dead_round (0, agents s, heap s))
       (\<lambda>(pt, ags, h). Inr (s\<lparr>agents := take pt ags, heap := h\<rparr>))"

subsection \<open>get\_info\<close>

text \<open>What a call stores in the caller's buffer, from index 0 on.\<close>

datatype info = Ints "int list" | Bools "bool list" | Nothing

definition get_info :: "'r deps \<Rightarrow> 'r TransCity \<Rightarrow> int \<Rightarrow> string \<Rightarrow> error + info" where
  "get_info d s grp name =
     (if name = ''id'' then
        bindE (iterate [0..<length (agents s)]
                 (\<lambda>i b. bindE (deref (heap s) (agents s ! i)) (\<lambda>ag. Inr (b @ [a_id ag]))) [])
          (\<lambda>b. Inr (Ints b))
      else if name = ''num'' then
        (if grp = 0 then Inr (Ints [int (length (agents s))])
         else if grp = -1 then Inr (Ints [0])
         else Inr Nothing)
      else if name = ''alive'' then
        bindE (iterate [0..<length (agents s)]
                 (\<lambda>i b. bindE (deref (heap s) (agents s ! i)) (\<lambda>ag. Inr (b @ [\<not> is_dead ag]))) [])
          (\<lambda>b. Inr (Bools b))
      else if name = ''action_space'' then Inr (Ints [ACT_NUM d])
      else if name = ''view_space'' then Inr (Ints [view_height s, view_width s, CHANNEL_NUM d])
      else if name = ''feature_space'' then Inr (Ints [get_feature_size d s grp])
      else Inl (Fatal (''unsupported info name in TransCity::get_info : '' @ name)))"

subsection \<open>Sequences of calls\<close>

datatype call = AddObject int int string "int list" | ClearDead

fun run :: "'r deps \<Rightarrow> call list \<Rightarrow> 'r TransCity \<Rightarrow> error + 'r TransCity" where
  "run d [] s = Inr s"
| "run d (AddObject obj_id n method buf # cs) s = bindE (add_object d s obj_id n method buf) (run d cs)"
| "run d (ClearDead # cs) s = bindE (clear_dead s) (run d cs)"

subsection \<open>A concrete instance\<close>

text \<open>An instance of the parameters on which the model can be evaluated: five actions,
  four channels, the three-index access read row-major (an index past the buffer reads 0),
  the minimal standard generator (multiplier 16807, modulus \<open>2^31 - 1\<close>) as the random
  engine, and a map that offers the cell \<open>(0, 0)\<close> and leaves the view buffer alone.\<close>

definition minstd_seed :: "int \<Rightarrow> nat" where
  "minstd_seed v = (if nat v mod 2147483647 = 0 then 1 else nat v mod 2147483647)"

definition minstd_draw :: "nat \<Rightarrow> 32 word \<times> nat" where
  "minstd_draw e = (let e' = 16807 * e mod 2147483647 in (word_of_nat e', e'))"

definition sample_deps :: "nat deps" where
  "sample_deps =
     \<lparr>ACT_NUM = 5, CHANNEL_NUM = 4,
      nd_at3 = (\<lambda>buf i j k. case rd buf (i * 2 + j + k) of Inl e \<Rightarrow> 0 | Inr v \<Rightarrow> v),
      engine_seed = minstd_seed,
      engine_draw = minstd_draw,
      get_random_blank = (\<lambda>calls e. (\<lparr>pos_x = 0, pos_y = 0\<rparr>, e)),
      extract_view = (\<lambda>calls h ag off vh vw nc vb. vb)\<rparr>"

text \<open>A freshly constructed and reset engine with a 3 x 3 view (see \<open>fresh_city_reset\<close>
  below).\<close>

definition fresh_city :: "nat TransCity" where
  "fresh_city =
     \<lparr>width = 100, height = 100, view_width = 3, view_height = 3,
      embedding_size = 16, interval_min = 10, interval_max = 20,
      id_counter = 0, random_engine = 1,
      city_map = [MapReset [] 100 100], walls = [], lights = [], parks = [], buildings = [],
      agents = [], heap = [], render_config = []\<rparr>"

text \<open>The fresh engine with one traffic light and no agent.\<close>

definition lit_city :: "nat TransCity" where
  "lit_city =
     fresh_city\<lparr>lights := [\<lparr>l_pos = \<lparr>pos_x = 1, pos_y = 1\<rparr>, l_orientation = 0, l_offset = 0,
                              l_interval = 12, l_elapsed = 0\<rparr>]\<rparr>"

text \<open>An engine with three cars, the second of them flagged dead.\<close>

definition mixed_city :: "nat TransCity" where
  "mixed_city =
     (let ag = fst (Agent_new 0)
      in fresh_city\<lparr>id_counter := 3, agents := [0, 1, 2],
           heap := [Some (ag\<lparr>a_id := 0, a_reward := 2\<rparr>),
                    Some (ag\<lparr>a_id := 1, a_dead := True\<rparr>),
                    Some (ag\<lparr>a_id := 2, a_reward := 5\<rparr>)]\<rparr>)"

text \<open>Two cars, an engine holding them, and the same engine configured with two
  embedding entries.\<close>

definition car_a :: Agent where
  "car_a = \<lparr>a_id = 0, a_pos = \<lparr>pos_x = 3, pos_y = 5\<rparr>, a_goal = \<lparr>pos_x = 4, pos_y = 7\<rparr>,
            a_action = 1, a_last_reward = 9, a_reward = 0,
            a_embedding = (\<lambda>k. 11), a_dead = False\<rparr>"

definition car_b :: Agent where
  "car_b = \<lparr>a_id = 1, a_pos = \<lparr>pos_x = 6, pos_y = 2\<rparr>, a_goal = \<lparr>pos_x = 0, pos_y = 8\<rparr>,
            a_action = 4, a_last_reward = 0, a_reward = 0,
            a_embedding = (\<lambda>k. 12), a_dead = False\<rparr>"

definition cars_city :: "nat TransCity" where
  "cars_city = fresh_city\<lparr>id_counter := 2, agents := [0, 1], heap := [Some car_a, Some car_b]\<rparr>"

definition obs_city :: "nat TransCity" where
  "obs_city = cars_city\<lparr>embedding_size := 2\<rparr>"

subsection \<open>Predicates on the agent population and loop invariants\<close>

text \<open>Every pointer of the list points to an agent that has not been deleted, and no
  pointer occurs twice.\<close>

definition live_ptrs :: "store \<Rightarrow> addr list \<Rightarrow> bool" where
  "live_ptrs h as = (distinct as \<and> (\<forall>a\<in>set as. \<exists>ag. deref h a = Inr ag))"

text \<open>The agent behind a pointer has its dead flag set.\<close>

definition dead_at :: "store \<Rightarrow> addr \<Rightarrow> bool" where
  "dead_at h a = (case deref h a of Inl e \<Rightarrow> False | Inr ag \<Rightarrow> is_dead ag)"

text \<open>The state of the compaction loop before round \<open>j\<close>, against the list and the heap
  the loop started from.\<close>

definition cd_inv :: "addr list \<Rightarrow> store \<Rightarrow> nat \<Rightarrow> nat \<times> addr list \<times> store \<Rightarrow> bool" where
  "cd_inv as0 h0 j st =
     (case st of (pt, ags, h) \<Rightarrow>
        length ags = length as0 \<and> pt \<le> j \<and>
        take pt ags = filter (\<lambda>a. \<not> dead_at h0 a) (take j as0) \<and>
        drop j ags = drop j as0 \<and>
        length h = length h0 \<and>
        (\<forall>a. a \<notin> set (take j as0) \<longrightarrow> h ! a = h0 ! a) \<and>
        (\<forall>a\<in>set (take j as0).
           h ! a = (if dead_at h0 a then None else map_option init_reward (h0 ! a))))"

text \<open>The state of the light loop of \<open>add_object\<close> before round \<open>i\<close>, against the
  engine \<open>s\<close> the loop started from: \<open>i\<close> lights appended and \<open>i\<close> values drawn, the
  \<open>k\<close>-th new light having the interval computed from the \<open>k\<close>-th value.\<close>

definition nth_engine :: "'r deps \<Rightarrow> 'r \<Rightarrow> nat \<Rightarrow> 'r" where
  "nth_engine d e k = ((\<lambda>e'. snd (engine_draw d e')) ^^ k) e"



text \<open>What the round of agent \<open>i\<close> leaves in the feature buffer \<open>fb\<close> for the agent \<open>ag\<close>,
  with \<open>fs\<close> the distance between two agents' first entries.\<close>

definition slice_ok :: "'r deps \<Rightarrow> 'r TransCity \<Rightarrow> int \<Rightarrow> real list \<Rightarrow> nat \<Rightarrow> Agent \<Rightarrow> bool" where
  "slice_ok d s fs fb i ag =
     ((\<forall>k<nat (embedding_size s). fb ! nat (int i * fs + int k) = a_embedding ag k) \<and>
      fb ! nat (int i * fs + (embedding_size s + a_action ag)) = 1 \<and>
      fb ! nat (int i * fs + (embedding_size s + ACT_NUM d)) = a_last_reward ag \<and>
      fb ! nat (int i * fs + (embedding_size s + ACT_NUM d + 1)) =
        goal_diff (pos_x (a_pos ag)) (pos_x (a_goal ag)) \<and>
      fb ! nat (int i * fs + (embedding_size s + ACT_NUM d + 2)) =
        goal_diff (pos_y (a_pos ag)) (pos_y (a_goal ag)))"

text \<open>The observation loop after the rounds of the agents in \<open>P\<close>: these agents have their
  entries.\<close>

definition obs_inv :: "'r deps \<Rightarrow> 'r TransCity \<Rightarrow> int \<Rightarrow> nat set \<Rightarrow> real list \<times> real list \<Rightarrow> bool" where
  "obs_inv d s fs P bufs =
     (\<forall>i\<in>P. \<forall>ag. deref (heap s) (agents s ! i) = Inr ag \<longrightarrow> slice_ok d s fs (snd bufs) i ag)"

text \<open>Every agent of the list has a last action of the action space.\<close>

definition actions_in_range :: "'r deps \<Rightarrow> 'r TransCity \<Rightarrow> bool" where
  "actions_in_range d s =
     (\<forall>j<length (agents s). \<forall>ag. deref (heap s) (agents s ! j) = Inr ag \<longrightarrow>
        0 \<le> a_action ag \<and> a_action ag < ACT_NUM d)"

text \<open>The id of the agent behind a pointer (\<open>-1\<close> when the pointer dangles).\<close>

definition id_at :: "store \<Rightarrow> addr \<Rightarrow> int" where
  "id_at h a = (case deref h a of Inl e \<Rightarrow> - 1 | Inr ag \<Rightarrow> a_id ag)"

text \<open>The population's ids are in order: the pointers are live and distinct, the ids
  increase strictly along the list (so they are pairwise distinct), and every id is below
  the counter.\<close>

definition ids_ok :: "'r TransCity \<Rightarrow> bool" where
  "ids_ok s =
     (live_ptrs (heap s) (agents s) \<and>
      sorted_wrt (<) (map (id_at (heap s)) (agents s)) \<and>
      (\<forall>a\<in>set (agents s). id_at (heap s) a < id_counter s))"

text \<open>From engine \<open>s\<close> to engine \<open>s'\<close> no id has changed or been issued again: the counter
  has not gone back, and every agent of \<open>s'\<close> either was in \<open>s\<close> with the id it has now, or
  was allocated after \<open>s\<close> and has an id that \<open>s\<close> had not issued yet.\<close>

definition ids_kept :: "'r TransCity \<Rightarrow> 'r TransCity \<Rightarrow> bool" where
  "ids_kept s s' =
     (id_counter s \<le> id_counter s' \<and> length (heap s) \<le> length (heap s') \<and>
      (\<forall>a\<in>set (agents s').
         (a \<in> set (agents s) \<and> id_at (heap s') a = id_at (heap s) a) \<or>
         (length (heap s) \<le> a \<and> id_counter s \<le> id_at (heap s') a)))"

section \<open>Properties\<close>

subsection \<open>Basic facts\<close>

lemma bindE_Inr [simp]: "bindE (Inr v) f = f v"
  by (simp add: bindE_def)

lemma bindE_Inl [simp]: "bindE (Inl e) f = Inl e"
  by (simp add: bindE_def)

lemma bindE_eq_Inr: "bindE m f = Inr r \<longleftrightarrow> (\<exists>v. m = Inr v \<and> f v = Inr r)"
  by (cases m) simp_all

lemmas eval_simps =
  add_object_def for_upto_def add_wall_row_def add_light_row_def add_car_custom_def
  place_agent_def Agent_new_def new_agent_def set_pos_def delete_agent_def deref_def
  at2_def rd_def wr_def draw_interval_def c_rem_def get_info_def get_reward_def
  fresh_city_def reset_def TransCity_new_def sample_deps_def minstd_seed_def minstd_draw_def
  Let_def upt_rec

subsection \<open>step\<close>

text \<open>C3 (as the code has it): \<open>step\<close> returns the engine and the \<open>done\<close> flag exactly as
  it received them. No traffic light is advanced and no termination condition is looked
  at: the body of \<open>step\<close> is empty.\<close>

theorem step_is_stub: "step s done = (s, done)"
  by (simp add: step_def)

text \<open>C3 as stated fails: on an engine with one light at tick 0 and an empty population
  (no agent alive), \<open>step\<close> with \<open>done = 0\<close> is a no-op: the engine is the same, the
  light's elapsed count is still 0, and \<open>done\<close> is still 0.\<close>

theorem step_no_tick_counterexample:
  "step lit_city 0 = (lit_city, 0)
   \<and> map l_elapsed (lights (fst (step lit_city 0))) = [0]
   \<and> agents lit_city = []"
  by (simp add: step_def lit_city_def fresh_city_def)

subsection \<open>add\_object: unknown categories and methods, recorded walls\<close>

text \<open>C7 (what the code does at the failing inputs): \<open>add_object\<close> with the unknown
  category 7, and with the wall category and the unknown method \<open>random\<close>, returns
  normally and leaves the engine as it was. Only the car category ends in the fatal
  error on an unknown method.\<close>

theorem add_object_unknown_is_silent:
  "add_object d s 7 1 ''custom'' [3, 1] = Inr s
   \<and> add_object d s (-1) 1 ''random'' [3, 1] = Inr s
   \<and> add_object d s 0 1 ''grid'' [3, 1] =
       Inl (Fatal ''unsupported method in TransCity::add_object: grid'')"
  by (simp add: add_object_def)

text \<open>C8 (what the code does at the failing input): injecting the one wall \<open>(3, 1)\<close>
  marks the cell \<open>(3, 1)\<close> in the map, and records in \<open>walls\<close> a position whose first
  member is the three-index read \<open>buf.at(0, 0, 1)\<close> and whose second member is 0, which is
  not \<open>(3, 1)\<close>.\<close>

theorem add_object_wall_recorded:
  "add_object d s (-1) 1 ''custom'' [3, 1] =
     Inr (s\<lparr>city_map := city_map s @ [AddWall \<lparr>pos_x = 3, pos_y = 1\<rparr>],
            walls := walls s @ [\<lparr>pos_x = nd_at3 d [3, 1] 0 0 1, pos_y = 0\<rparr>]\<rparr>)
   \<and> \<lparr>pos_x = nd_at3 d [3, 1] 0 0 1, pos_y = 0\<rparr> \<noteq> \<lparr>pos_x = 3, pos_y = 1\<rparr>"
  by (simp add: add_object_def for_upto_def add_wall_row_def at2_def rd_def)

subsection \<open>reset\<close>

lemma reset_agents: "reset s = Inr s' \<Longrightarrow> agents s' = agents s"
  by (auto simp: reset_def Let_def bindE_eq_Inr)

lemma reset_num:
  "reset s = Inr s' \<Longrightarrow> get_info d s' 0 ''num'' = Inr (Ints [int (length (agents s))])"
  by (simp add: reset_agents get_info_def)

lemma fresh_city_reset: "reset (TransCity_new sample_deps 0 3 3) = Inr fresh_city"
  by (simp add: reset_def TransCity_new_def fresh_city_def sample_deps_def minstd_seed_def)

text \<open>C2 (what the code does at the failing input): two cars are added to a fresh
  engine and the engine is reset. The agent list still has its two entries, so
  \<open>get_info(car, "num")\<close> reports 2; the entries point to deleted agents, and
  \<open>get_reward\<close> reads through them.\<close>

theorem reset_keeps_agent_list:
  "bindE (add_object sample_deps fresh_city 0 2 ''custom'' [3, 4, 5, 6])
     (\<lambda>s. bindE (reset s) (\<lambda>s'. get_info sample_deps s' 0 ''num'')) = Inr (Ints [2])
   \<and> bindE (add_object sample_deps fresh_city 0 2 ''custom'' [3, 4, 5, 6])
       (\<lambda>s. bindE (reset s) (\<lambda>s'. get_reward s' 0 [0, 0])) = Inl UseAfterFree"
  by (simp add: eval_simps)

subsection \<open>Loops\<close>

lemma iterate_upt_total:
  assumes "I j s" and "j \<le> n"
    and step: "\<And>i t. j \<le> i \<Longrightarrow> i < n \<Longrightarrow> I i t \<Longrightarrow> \<exists>t'. body i t = Inr t' \<and> I (Suc i) t'"
  shows "\<exists>t'. iterate [j..<n] body s = Inr t' \<and> I n t'"
  using assms
proof (induction "n - j" arbitrary: j s)
  case 0
  then show ?case by simp
next
  case (Suc k)
  then have lt: "j < n" by linarith
  from Suc.prems(3)[OF le_refl lt Suc.prems(1)]
  obtain t where t: "body j s = Inr t" "I (Suc j) t" by blast
  have "\<exists>t'. iterate [Suc j..<n] body t = Inr t' \<and> I n t'"
  proof (rule Suc.hyps(1))
    show "k = n - Suc j" using Suc.hyps(2) by linarith
    show "I (Suc j) t" by (rule t(2))
    show "Suc j \<le> n" using lt by simp
    show "\<And>i t. Suc j \<le> i \<Longrightarrow> i < n \<Longrightarrow> I i t \<Longrightarrow> \<exists>t'. body i t = Inr t' \<and> I (Suc i) t'"
      using Suc.prems(3) by simp
  qed
  then show ?case using lt t(1) by (simp add: upt_conv_Cons)
qed

lemma iterate_upt_partial:
  assumes "iterate [j..<n] body s = Inr r" and "I j s" and "j \<le> n"
    and step: "\<And>i t t'. j \<le> i \<Longrightarrow> i < n \<Longrightarrow> I i t \<Longrightarrow> body i t = Inr t' \<Longrightarrow> I (Suc i) t'"
  shows "I n r"
  using assms
proof (induction "n - j" arbitrary: j s)
  case 0
  then show ?case by simp
next
  case (Suc k)
  then have lt: "j < n" by linarith
  from Suc.prems(1) lt obtain t where t: "body j s = Inr t" "iterate [Suc j..<n] body t = Inr r"
    by (auto simp: upt_conv_Cons split: sum.splits)
  show ?case
  proof (rule Suc.hyps(1)[OF _ t(2)])
    show "k = n - Suc j" using Suc.hyps(2) by linarith
    show "I (Suc j) t" using Suc.prems(4)[OF le_refl lt Suc.prems(2) t(1)] .
    show "Suc j \<le> n" using lt by simp
    show "\<And>i t t'. Suc j \<le> i \<Longrightarrow> i < n \<Longrightarrow> I i t \<Longrightarrow> body i t = Inr t' \<Longrightarrow> I (Suc i) t'"
      using Suc.prems(4) by simp
  qed
qed

subsection \<open>clear\_dead\<close>

lemma deref_Inr: "deref h a = Inr ag \<longleftrightarrow> a < length h \<and> h ! a = Some ag"
  by (auto simp: deref_def split: option.splits)

lemma nth_notin_take:
  assumes "distinct xs" and "j < length xs"
  shows "xs ! j \<notin> set (take j xs)"
proof
  assume "xs ! j \<in> set (take j xs)"
  then obtain i where "i < length (take j xs)" and "take j xs ! i = xs ! j"
    by (auto simp: in_set_conv_nth)
  then have "i < j" and "xs ! i = xs ! j" by simp_all
  with assms show False by (simp add: nth_eq_iff_index_eq)
qed

lemma drop_Suc_eq:
  assumes "drop j xs = drop j ys"
  shows "drop (Suc j) xs = drop (Suc j) ys"
proof -
  have "tl (drop j xs) = tl (drop j ys)" using assms by simp
  then show ?thesis by (simp add: drop_Suc tl_drop)
qed

lemma nth_of_drop_eq:
  assumes "drop j xs = drop j ys" and "j < length ys" and "length xs = length ys"
  shows "xs ! j = ys ! j"
proof -
  have "xs ! j = hd (drop j xs)" using assms(2,3) by (simp add: hd_drop_conv_nth)
  also have "\<dots> = hd (drop j ys)" using assms(1) by simp
  also have "\<dots> = ys ! j" using assms(2) by (simp add: hd_drop_conv_nth)
  finally show ?thesis .
qed

lemma cd_round:
  assumes lp: "live_ptrs h0 as0" and j: "j < length as0" and inv: "cd_inv as0 h0 j st"
  shows "\<exists>st'. clear_dead_round j st = Inr st' \<and> cd_inv as0 h0 (Suc j) st'"
proof -
  obtain pt ags h where st: "st = (pt, ags, h)" by (cases st)
  let ?a = "as0 ! j"
  from inv st have len: "length ags = length as0" and pt: "pt \<le> j"
    and tk: "take pt ags = filter (\<lambda>a. \<not> dead_at h0 a) (take j as0)"
    and dr: "drop j ags = drop j as0"
    and lh: "length h = length h0"
    and fr: "\<And>a. a \<notin> set (take j as0) \<Longrightarrow> h ! a = h0 ! a"
    and dn: "\<And>a. a \<in> set (take j as0) \<Longrightarrow>
           h ! a = (if dead_at h0 a then None else map_option init_reward (h0 ! a))"
    by (simp_all add: cd_inv_def)
  have aj: "ags ! j = ?a" by (rule nth_of_drop_eq[OF dr j len])
  from lp nth_mem[OF j] obtain ag where ag: "deref h0 ?a = Inr ag"
    unfolding live_ptrs_def by blast
  have dist: "distinct as0" using lp by (simp add: live_ptrs_def)
  have notin: "?a \<notin> set (take j as0)" by (rule nth_notin_take[OF dist j])
  have h0A: "h0 ! ?a = Some ag" and lt0: "?a < length h0" using ag by (simp_all add: deref_Inr)
  have hA: "h ! ?a = Some ag" using fr[OF notin] h0A by simp
  have ltA: "?a < length h" using lt0 lh by simp
  have d: "deref h ?a = Inr ag" using hA ltA by (simp add: deref_Inr)
  have tkS: "take (Suc j) as0 = take j as0 @ [?a]"
    using j by (simp add: take_Suc_conv_app_nth)
  have al: "dead_at h0 ?a = is_dead ag" using ag by (simp add: dead_at_def)
  have drS: "drop (Suc j) ags = drop (Suc j) as0" by (rule drop_Suc_eq[OF dr])
  show ?thesis
  proof (cases "is_dead ag")
    case True
    let ?h = "h[?a := None]"
    have del: "delete_agent h ?a = Inr ?h" using d by (simp add: delete_agent_def)
    have 3: "take pt ags = filter (\<lambda>a. \<not> dead_at h0 a) (take (Suc j) as0)"
      using tk al True by (simp add: tkS)
    have 5: "length ?h = length h0" using lh by simp
    have 6: "\<forall>a. a \<notin> set (take (Suc j) as0) \<longrightarrow> ?h ! a = h0 ! a"
      using fr by (simp add: tkS)
    have 7: "\<forall>a\<in>set (take (Suc j) as0).
           ?h ! a = (if dead_at h0 a then None else map_option init_reward (h0 ! a))"
    proof
      fix a assume a: "a \<in> set (take (Suc j) as0)"
      show "?h ! a = (if dead_at h0 a then None else map_option init_reward (h0 ! a))"
      proof (cases "a = ?a")
        case True
        then show ?thesis using al \<open>is_dead ag\<close> ltA by simp
      next
        case False
        then have "a \<in> set (take j as0)" using a by (simp add: tkS)
        from dn[OF this] False show ?thesis by simp
      qed
    qed
    have "cd_inv as0 h0 (Suc j) (pt, ags, ?h)"
      unfolding cd_inv_def using len pt 3 drS 5 6 7 by simp
    then show ?thesis using st d True aj del by (simp add: clear_dead_round_def)
  next
    case False
    let ?h = "h[?a := Some (init_reward ag)]"
    let ?ags = "ags[pt := ?a]"
    have ptn: "pt < length ags" using pt j len by simp
    have "take (Suc pt) ?ags = take pt ?ags @ [?ags ! pt]"
      using ptn by (simp add: take_Suc_conv_app_nth)
    also have "\<dots> = take pt ags @ [?a]" using ptn by simp
    finally have 3: "take (Suc pt) ?ags = filter (\<lambda>a. \<not> dead_at h0 a) (take (Suc j) as0)"
      using tk al False by (simp add: tkS)
    have 4: "drop (Suc j) ?ags = drop (Suc j) as0" using drS pt by simp
    have 5: "length ?h = length h0" using lh by simp
    have 6: "\<forall>a. a \<notin> set (take (Suc j) as0) \<longrightarrow> ?h ! a = h0 ! a"
      using fr by (simp add: tkS)
    have 7: "\<forall>a\<in>set (take (Suc j) as0).
           ?h ! a = (if dead_at h0 a then None else map_option init_reward (h0 ! a))"
    proof
      fix a assume a: "a \<in> set (take (Suc j) as0)"
      show "?h ! a = (if dead_at h0 a then None else map_option init_reward (h0 ! a))"
      proof (cases "a = ?a")
        case True
        then show ?thesis using al \<open>\<not> is_dead ag\<close> ltA h0A by simp
      next
        case False
        then have "a \<in> set (take j as0)" using a by (simp add: tkS)
        from dn[OF this] False show ?thesis by simp
      qed
    qed
    have "cd_inv as0 h0 (Suc j) (Suc pt, ?ags, ?h)"
      unfolding cd_inv_def using len pt 3 4 5 6 7 by simp
    then show ?thesis using st d False aj by (simp add: clear_dead_round_def)
  qed
qed

lemma clear_dead_spec:
  assumes lp: "live_ptrs (heap s) (agents s)"
  shows "\<exists>h'. clear_dead s =
           Inr (s\<lparr>agents := filter (\<lambda>a. \<not> dead_at (heap s) a) (agents s), heap := h'\<rparr>)
         \<and> length h' = length (heap s)
         \<and> (\<forall>a. a \<notin> set (agents s) \<longrightarrow> h' ! a = heap s ! a)
         \<and> (\<forall>a\<in>set (agents s).
              h' ! a = (if dead_at (heap s) a then None else map_option init_reward (heap s ! a)))"
proof -
  let ?as = "agents s" and ?h = "heap s"
  have init: "cd_inv ?as ?h 0 (0, ?as, ?h)" by (simp add: cd_inv_def)
  have "\<exists>st. iterate [0..<length ?as] clear_dead_round (0, ?as, ?h) = Inr st
             \<and> cd_inv ?as ?h (length ?as) st"
  proof (rule iterate_upt_total[of "cd_inv ?as ?h", OF init])
    show "0 \<le> length ?as" by simp
    show "\<And>i t. 0 \<le> i \<Longrightarrow> i < length ?as \<Longrightarrow> cd_inv ?as ?h i t \<Longrightarrow>
            \<exists>t'. clear_dead_round i t = Inr t' \<and> cd_inv ?as ?h (Suc i) t'"
      by (rule cd_round[OF lp])
  qed
  then obtain pt ags h where it: "iterate [0..<length ?as] clear_dead_round (0, ?as, ?h) = Inr (pt, ags, h)"
    and inv: "cd_inv ?as ?h (length ?as) (pt, ags, h)"
    by (metis prod_cases3)
  from inv have tk: "take pt ags = filter (\<lambda>a. \<not> dead_at ?h a) ?as"
    and lh: "length h = length ?h"
    and fr: "\<forall>a. a \<notin> set ?as \<longrightarrow> h ! a = ?h ! a"
    and dn: "\<forall>a\<in>set ?as. h ! a = (if dead_at ?h a then None else map_option init_reward (?h ! a))"
    by (simp_all add: cd_inv_def)
  have "clear_dead s = Inr (s\<lparr>agents := filter (\<lambda>a. \<not> dead_at ?h a) ?as, heap := h\<rparr>)"
    using it tk by (simp add: clear_dead_def)
  with lh fr dn show ?thesis by blast
qed

lemma live_not_dead:
  assumes "live_ptrs h as" and "a \<in> set as" and "\<not> dead_at h a"
  shows "\<exists>ag. deref h a = Inr ag \<and> \<not> is_dead ag"
  using assms by (auto simp: live_ptrs_def dead_at_def)

lemma num_info: "get_info d s 0 ''num'' = Inr (Ints [int (length (agents s))])"
  by (simp add: get_info_def)

lemma length_filter_dead:
  "int (length (filter (\<lambda>a. \<not> P a) xs)) = int (length xs) - int (length (filter P xs))"
  using sum_length_filter_compl[of P xs] by linarith

text \<open>C4: on a population whose pointers are live and distinct, \<open>clear_dead\<close> returns; the
  new list is the old one without the dead-flagged agents, in the old order; every
  dead-flagged agent is deleted; every survivor is the agent it was with \<open>init_reward\<close>
  applied, so its reward accumulator is the neutral value; and \<open>get_info("num")\<close> then
  reports the old size minus the number of dead-flagged agents.\<close>

theorem clear_dead_compacts:
  assumes lp: "live_ptrs (heap s) (agents s)"
  shows "\<exists>s'. clear_dead s = Inr s'
     \<and> agents s' = filter (\<lambda>a. \<not> dead_at (heap s) a) (agents s)
     \<and> (\<forall>a\<in>set (agents s). dead_at (heap s) a \<longrightarrow> deref (heap s') a = Inl UseAfterFree)
     \<and> (\<forall>a\<in>set (agents s'). \<exists>ag. deref (heap s) a = Inr ag \<and> deref (heap s') a = Inr (init_reward ag)
            \<and> a_reward (init_reward ag) = neutral_reward)
     \<and> get_info d s' 0 ''num'' =
         Inr (Ints [int (length (agents s)) - int (length (filter (dead_at (heap s)) (agents s)))])"
proof -
  from clear_dead_spec[OF lp] obtain h' where
    cd: "clear_dead s = Inr (s\<lparr>agents := filter (\<lambda>a. \<not> dead_at (heap s) a) (agents s), heap := h'\<rparr>)"
    and lh: "length h' = length (heap s)"
    and dn: "\<forall>a\<in>set (agents s).
              h' ! a = (if dead_at (heap s) a then None else map_option init_reward (heap s ! a))"
    by blast
  let ?s' = "s\<lparr>agents := filter (\<lambda>a. \<not> dead_at (heap s) a) (agents s), heap := h'\<rparr>"
  have dead: "\<forall>a\<in>set (agents s). dead_at (heap s) a \<longrightarrow> deref (heap ?s') a = Inl UseAfterFree"
    using dn by (simp add: deref_def)
  have surv: "\<forall>a\<in>set (agents ?s'). \<exists>ag. deref (heap s) a = Inr ag \<and> deref (heap ?s') a = Inr (init_reward ag)
            \<and> a_reward (init_reward ag) = neutral_reward"
  proof
    fix a assume "a \<in> set (agents ?s')"
    then have a: "a \<in> set (agents s)" and nd: "\<not> dead_at (heap s) a" by simp_all
    from live_not_dead[OF lp a nd] obtain ag where ag: "deref (heap s) a = Inr ag" by blast
    then have "heap s ! a = Some ag" and "a < length (heap s)" by (simp_all add: deref_Inr)
    with dn a nd lh have "deref (heap ?s') a = Inr (init_reward ag)" by (simp add: deref_Inr)
    with ag show "\<exists>ag. deref (heap s) a = Inr ag \<and> deref (heap ?s') a = Inr (init_reward ag)
            \<and> a_reward (init_reward ag) = neutral_reward"
      by (simp add: init_reward_def)
  qed
  have num: "get_info d ?s' 0 ''num'' =
         Inr (Ints [int (length (agents s)) - int (length (filter (dead_at (heap s)) (agents s)))])"
    by (simp add: num_info length_filter_dead)
  show ?thesis
  proof (intro exI[of _ ?s'] conjI)
    show "clear_dead s = Inr ?s'" by (rule cd)
    show "agents ?s' = filter (\<lambda>a. \<not> dead_at (heap s) a) (agents s)" by simp
  qed (rule dead surv num)+
qed

lemmas mixed_simps = mixed_city_def fresh_city_def reset_def TransCity_new_def Agent_new_def
  sample_deps_def Let_def delete_agent_def live_ptrs_def deref_def dead_at_def is_dead_def

theorem clear_dead_compacts_witness:
  "live_ptrs (heap mixed_city) (agents mixed_city)
   \<and> (\<exists>s'. clear_dead mixed_city = Inr s' \<and> agents s' = [0, 2]
          \<and> get_info sample_deps s' 0 ''num'' = Inr (Ints [2]))"
proof -
  have lp: "live_ptrs (heap mixed_city) (agents mixed_city)"
    by (simp add: mixed_simps)
  from clear_dead_compacts[OF lp, of sample_deps] obtain s' where
    "clear_dead mixed_city = Inr s'"
    "agents s' = filter (\<lambda>a. \<not> dead_at (heap mixed_city) a) (agents mixed_city)"
    "get_info sample_deps s' 0 ''num'' =
       Inr (Ints [int (length (agents mixed_city))
                  - int (length (filter (dead_at (heap mixed_city)) (agents mixed_city)))])"
    by blast
  moreover have "filter (\<lambda>a. \<not> dead_at (heap mixed_city) a) (agents mixed_city) = [0, 2]"
    by (simp add: mixed_simps)
  moreover have "filter (dead_at (heap mixed_city)) (agents mixed_city) = [1]"
    by (simp add: mixed_simps)
  moreover have "length (agents mixed_city) = 3" by (simp add: mixed_simps)
  ultimately show ?thesis using lp by simp
qed

text \<open>C10: \<open>get_info(car, "num")\<close> is the length of the agent list, whatever the dead
  flags say; once \<open>clear_dead\<close> has run (on live, distinct pointers) it is the number of
  agents that were not flagged dead, and no agent of the list is flagged dead.\<close>

theorem num_counts_dead_until_cleared:
  "get_info d s 0 ''num'' = Inr (Ints [int (length (agents s))])
   \<and> (live_ptrs (heap s) (agents s) \<longrightarrow>
        (\<exists>s'. clear_dead s = Inr s'
           \<and> get_info d s' 0 ''num'' =
               Inr (Ints [int (length (filter (\<lambda>a. \<not> dead_at (heap s) a) (agents s)))])
           \<and> (\<forall>a\<in>set (agents s'). \<not> dead_at (heap s') a)))"
proof (intro conjI impI)
  show "get_info d s 0 ''num'' = Inr (Ints [int (length (agents s))])" by (rule num_info)
next
  assume lp: "live_ptrs (heap s) (agents s)"
  from clear_dead_spec[OF lp] obtain h' where
    cd: "clear_dead s = Inr (s\<lparr>agents := filter (\<lambda>a. \<not> dead_at (heap s) a) (agents s), heap := h'\<rparr>)"
    and lh: "length h' = length (heap s)"
    and dn: "\<forall>a\<in>set (agents s).
              h' ! a = (if dead_at (heap s) a then None else map_option init_reward (heap s ! a))"
    by blast
  let ?s' = "s\<lparr>agents := filter (\<lambda>a. \<not> dead_at (heap s) a) (agents s), heap := h'\<rparr>"
  have alive: "\<forall>a\<in>set (agents ?s'). \<not> dead_at (heap ?s') a"
  proof
    fix a assume "a \<in> set (agents ?s')"
    then have a: "a \<in> set (agents s)" and nd: "\<not> dead_at (heap s) a" by simp_all
    from live_not_dead[OF lp a nd] obtain ag where ag: "deref (heap s) a = Inr ag" "\<not> is_dead ag"
      by blast
    then have "heap s ! a = Some ag" and "a < length (heap s)" by (simp_all add: deref_Inr)
    with dn a nd lh have "deref (heap ?s') a = Inr (init_reward ag)" by (simp add: deref_Inr)
    with ag(2) show "\<not> dead_at (heap ?s') a"
      by (simp add: dead_at_def is_dead_def init_reward_def)
  qed
  show "\<exists>s'. clear_dead s = Inr s'
           \<and> get_info d s' 0 ''num'' =
               Inr (Ints [int (length (filter (\<lambda>a. \<not> dead_at (heap s) a) (agents s)))])
           \<and> (\<forall>a\<in>set (agents s'). \<not> dead_at (heap s') a)"
  proof (intro exI[of _ ?s'] conjI)
    show "clear_dead s = Inr ?s'" by (rule cd)
    show "get_info d ?s' 0 ''num'' =
               Inr (Ints [int (length (filter (\<lambda>a. \<not> dead_at (heap s) a) (agents s)))])"
      by (simp add: num_info)
  qed (rule alive)
qed

theorem num_counts_dead_until_cleared_witness:
  "dead_at (heap mixed_city) 1
   \<and> get_info sample_deps mixed_city 0 ''num'' = Inr (Ints [3])
   \<and> live_ptrs (heap mixed_city) (agents mixed_city)
   \<and> (\<exists>s'. clear_dead mixed_city = Inr s' \<and> get_info sample_deps s' 0 ''num'' = Inr (Ints [2]))"
proof -
  have lp: "live_ptrs (heap mixed_city) (agents mixed_city)"
    by (simp add: mixed_simps)
  have d1: "dead_at (heap mixed_city) 1" by (simp add: mixed_simps)
  have n: "length (agents mixed_city) = 3" by (simp add: mixed_simps)
  have f: "filter (\<lambda>a. \<not> dead_at (heap mixed_city) a) (agents mixed_city) = [0, 2]"
    by (simp add: mixed_simps)
  note inst = num_counts_dead_until_cleared[of sample_deps mixed_city]
  from inst have "get_info sample_deps mixed_city 0 ''num'' = Inr (Ints [3])"
    using n by simp
  moreover from inst lp obtain s' where "clear_dead mixed_city = Inr s'"
    "get_info sample_deps s' 0 ''num'' =
       Inr (Ints [int (length (filter (\<lambda>a. \<not> dead_at (heap mixed_city) a) (agents mixed_city)))])"
    by blast
  ultimately show ?thesis using lp d1 f by auto
qed

subsection \<open>32-bit arithmetic\<close>

lemma wrap32_id:
  assumes "- 2147483648 \<le> v" and "v < 2147483648"
  shows "wrap32 v = v"
  using assms by (simp add: wrap32_def)



subsection \<open>The interval of a traffic light\<close>









lemma nth_engine_0 [simp]: "nth_engine d e 0 = e"
  by (simp add: nth_engine_def)








text \<open>Outside the hypothesis on the engine: a value with bit 31 set is negative once cast,
  the C++ remainder keeps that sign, and the interval falls below \<open>interval_min\<close>.\<close>

lemma interval_of_negative_draw: "interval_of 10 20 0x80000001 = 3"
  by (simp add: interval_of_def wrap32_def c_rem_def)


subsection \<open>get\_observation\<close>

lemma float_of_int_exact:
  assumes "\<bar>v\<bar> \<le> 16777216"
  shows "float_of_int v = real_of_int v"
proof (cases "\<bar>v\<bar> = 16777216")
  case True
  have u: "float_ulp 16777216 = 2"
    by (simp add: float_ulp.simps[of 16777216] float_ulp.simps[of 8388608])
  from True have "v = 16777216 \<or> v = - 16777216" by linarith
  then show ?thesis by (auto simp: float_of_int_def u Let_def)
next
  case False
  with assms have "nat \<bar>v\<bar> < 16777216" by linarith
  then have u: "float_ulp (nat \<bar>v\<bar>) = 1" by (simp add: float_ulp.simps[of "nat \<bar>v\<bar>"])
  have "real_of_int (sgn v) * \<bar>real_of_int v\<bar> = real_of_int (sgn v * \<bar>v\<bar>)" by simp
  also have "\<dots> = real_of_int v" by (simp only: mult_sgn_abs)
  finally show ?thesis by (simp add: float_of_int_def u Let_def)
qed

text \<open>Above \<open>2^24\<close> the conversion rounds: the floats next to \<open>2^24 + 1\<close> are two apart
  and those next to \<open>2^25 + 1\<close> four apart.\<close>

lemma float_of_int_rounds:
  "float_of_int 16777217 = 16777216" "float_of_int 33554433 = 33554432"
  "float_of_int (- 16777219) = - 16777220"
  by (simp_all add: float_of_int_def Let_def float_ulp.simps[of 16777217]
        float_ulp.simps[of 16777219] float_ulp.simps[of 33554433] float_ulp.simps[of 16777216]
        float_ulp.simps[of 8388608] float_ulp.simps[of 8388609])

lemma goal_diff_exact:
  assumes "\<bar>p - g\<bar> \<le> 16777216"
  shows "goal_diff p g = real_of_int (p - g)"
proof -
  have "wrap32 (p - g) = p - g" using assms by (intro wrap32_id) linarith+
  then show ?thesis using assms by (simp add: goal_diff_def float_of_int_exact)
qed

lemma feature_size_exact:
  assumes "0 \<le> embedding_size s" and "0 \<le> ACT_NUM d"
    and "embedding_size s + ACT_NUM d + 3 < 2147483648"
  shows "get_feature_size d s grp = embedding_size s + ACT_NUM d + 1 + 2"
proof -
  have 1: "wrap32 (embedding_size s + ACT_NUM d) = embedding_size s + ACT_NUM d"
    using assms by (intro wrap32_id) linarith+
  have 2: "wrap32 (embedding_size s + ACT_NUM d + 1) = embedding_size s + ACT_NUM d + 1"
    using assms by (intro wrap32_id) linarith+
  have 3: "wrap32 (embedding_size s + ACT_NUM d + 1 + 2) = embedding_size s + ACT_NUM d + 1 + 2"
    using assms by (intro wrap32_id) linarith+
  show ?thesis by (simp only: get_feature_size_def 1 2 3)
qed

lemma wr_Inr: "wr b k v = Inr b' \<longleftrightarrow> 0 \<le> k \<and> k < int (length b) \<and> b' = b[nat k := v]"
  by (auto simp: wr_def)

lemma get_embedding_post:
  assumes run: "get_embedding ag off sz b = Inr b'" and off: "0 \<le> off"
  shows "length b' = length b
       \<and> (\<forall>m. m < nat off \<or> nat off + nat sz \<le> m \<longrightarrow> b' ! m = b ! m)
       \<and> (\<forall>k<nat sz. b' ! (nat off + k) = a_embedding ag k)"
proof -
  let ?I = "\<lambda>k t. length t = length b \<and> (\<forall>m. m < nat off \<or> nat off + k \<le> m \<longrightarrow> t ! m = b ! m)
                 \<and> (\<forall>k'<k. t ! (nat off + k') = a_embedding ag k')"
  have "?I (nat sz) b'"
  proof (rule iterate_upt_partial[of 0 "nat sz" _ b b' ?I])
    show "iterate [0..<nat sz] (\<lambda>k b. wr b (off + int k) (a_embedding ag k)) b = Inr b'"
      using run by (simp add: get_embedding_def)
    show "?I 0 b" by simp
    show "0 \<le> nat sz" by simp
  next
    fix i t t'
    assume inv: "?I i t" and w: "wr t (off + int i) (a_embedding ag i) = Inr t'"
    from w have lt: "off + int i < int (length t)" and t': "t' = t[nat (off + int i) := a_embedding ag i]"
      by (simp_all add: wr_Inr)
    have idx: "nat (off + int i) = nat off + i" using off by (simp add: nat_add_distrib)
    have 1: "length t' = length b" using inv t' by simp
    have 2: "\<forall>m. m < nat off \<or> nat off + Suc i \<le> m \<longrightarrow> t' ! m = b ! m"
      using inv t' idx by simp
    have 3: "\<forall>k'<Suc i. t' ! (nat off + k') = a_embedding ag k'"
    proof (intro allI impI)
      fix k' assume "k' < Suc i"
      show "t' ! (nat off + k') = a_embedding ag k'"
      proof (cases "k' = i")
        case True
        have "nat off + i < length t" using lt off by linarith
        then show ?thesis using True t' idx by simp
      next
        case False
        with \<open>k' < Suc i\<close> have "k' < i" by simp
        with inv False show ?thesis using t' idx by simp
      qed
    qed
    from 1 2 3 show "?I (Suc i) t'" by blast
  qed
  then show ?thesis by blast
qed

lemma observe_agent_post:
  assumes run: "observe_agent d s fs j bufs = Inr bufs'"
    and fs: "fs = embedding_size s + ACT_NUM d + 1 + 2"
    and es: "0 \<le> embedding_size s" and na: "0 \<le> ACT_NUM d"
    and ag: "deref (heap s) (agents s ! j) = Inr ag"
    and act: "0 \<le> a_action ag" "a_action ag < ACT_NUM d"
  shows "(\<forall>m. m < nat (int j * fs) \<or> nat (int (Suc j) * fs) \<le> m \<longrightarrow> snd bufs' ! m = snd bufs ! m)
       \<and> slice_ok d s fs (snd bufs') j ag"
proof -
  let ?es = "embedding_size s" and ?na = "ACT_NUM d" and ?row = "int j * fs"
  let ?R = "a_last_reward ag"
  let ?X = "goal_diff (pos_x (a_pos ag)) (pos_x (a_goal ag))"
  let ?Y = "goal_diff (pos_y (a_pos ag)) (pos_y (a_goal ag))"
  have fs0: "0 \<le> fs" using fs es na by simp
  have row: "0 \<le> ?row" using fs0 by simp
  from run ag obtain fb1 fb2 fb3 fb4 fb5 where
    e: "get_embedding ag ?row ?es (snd bufs) = Inr fb1"
    and w2: "wr fb1 (?row + (?es + a_action ag)) 1 = Inr fb2"
    and w3: "wr fb2 (?row + (?es + ?na)) ?R = Inr fb3"
    and w4: "wr fb3 (?row + (?es + ?na + 1)) ?X = Inr fb4"
    and w5: "wr fb4 (?row + (?es + ?na + 2)) ?Y = Inr fb5"
    and res: "snd bufs' = fb5"
    by (auto simp: observe_agent_def Let_def bindE_eq_Inr)
  define r e a n where "r = nat ?row" and "e = nat ?es" and "a = nat (a_action ag)" and "n = nat ?na"
  have an: "a < n" using act by (simp add: a_def n_def)
  have i2: "nat (?row + (?es + a_action ag)) = r + e + a"
    and i3: "nat (?row + (?es + ?na)) = r + e + n"
    and i4: "nat (?row + (?es + ?na + 1)) = r + e + n + 1"
    and i5: "nat (?row + (?es + ?na + 2)) = r + e + n + 2"
    using row es na act by (simp_all add: r_def e_def a_def n_def nat_add_distrib)
  have "int (Suc j) * fs = ?row + fs" by (simp add: algebra_simps)
  then have nxt: "nat (int (Suc j) * fs) = r + e + n + 3"
    using row es na fs by (simp add: r_def e_def n_def nat_add_distrib)
  from get_embedding_post[OF e row]
  have l1: "length fb1 = length (snd bufs)"
    and f1: "\<forall>m. m < r \<or> r + e \<le> m \<longrightarrow> fb1 ! m = snd bufs ! m"
    and e1: "\<forall>k<e. fb1 ! (r + k) = a_embedding ag k"
    by (simp_all add: r_def e_def)
  from w2 have b2: "r + e + a < length fb1" and fb2: "fb2 = fb1[r + e + a := 1]"
    using i2 by (simp_all add: wr_Inr) linarith
  from w3 have b3: "r + e + n < length fb2" and fb3: "fb3 = fb2[r + e + n := ?R]"
    using i3 by (simp_all add: wr_Inr) linarith
  from w4 have b4: "r + e + n + 1 < length fb3" and fb4: "fb4 = fb3[r + e + n + 1 := ?X]"
    using i4 by (simp_all add: wr_Inr) linarith
  from w5 have b5: "r + e + n + 2 < length fb4" and fb5: "fb5 = fb4[r + e + n + 2 := ?Y]"
    using i5 by (simp_all add: wr_Inr) linarith
  have frame: "\<forall>m. m < r \<or> r + e + n + 3 \<le> m \<longrightarrow> fb5 ! m = snd bufs ! m"
    using f1 an by (simp add: fb5 fb4 fb3 fb2)
  have emb: "\<forall>k<e. fb5 ! (r + k) = a_embedding ag k"
    using e1 by (simp add: fb5 fb4 fb3 fb2)
  have one: "fb5 ! (r + e + a) = 1" using b2 an by (simp add: fb5 fb4 fb3 fb2)
  have rew: "fb5 ! (r + e + n) = ?R" using b3 by (simp add: fb5 fb4 fb3)
  have dx: "fb5 ! (r + e + n + 1) = ?X" using b4 by (simp add: fb5 fb4)
  have dy: "fb5 ! (r + e + n + 2) = ?Y" using b5 by (simp add: fb5)
  have frame': "\<forall>m. m < nat ?row \<or> nat (int (Suc j) * fs) \<le> m \<longrightarrow> fb5 ! m = snd bufs ! m"
    unfolding nxt r_def[symmetric] by (rule frame)
  have "slice_ok d s fs fb5 j ag"
    unfolding slice_ok_def
  proof (intro conjI allI impI)
    fix k assume "k < nat ?es"
    then have "k < e" by (simp add: e_def)
    moreover have "nat (?row + int k) = r + k" using row by (simp add: r_def nat_add_distrib)
    ultimately show "fb5 ! nat (?row + int k) = a_embedding ag k" using emb by simp
  next
    show "fb5 ! nat (?row + (?es + a_action ag)) = 1" using one by (simp add: i2)
    show "fb5 ! nat (?row + (?es + ?na)) = ?R" using rew by (simp add: i3)
    show "fb5 ! nat (?row + (?es + ?na + 1)) = ?X" using dx by (simp add: i4)
    show "fb5 ! nat (?row + (?es + ?na + 2)) = ?Y" using dy by (simp add: i5)
  qed
  with frame' show ?thesis unfolding res by blast
qed

lemma slice_ok_frame:
  assumes ok: "slice_ok d s fs fb i ag"
    and same: "\<forall>m. nat (int i * fs) \<le> m \<and> m < nat (int (Suc i) * fs) \<longrightarrow> fb' ! m = fb ! m"
    and fs: "fs = embedding_size s + ACT_NUM d + 1 + 2"
    and es: "0 \<le> embedding_size s" and na: "0 \<le> ACT_NUM d"
    and act: "0 \<le> a_action ag" "a_action ag < ACT_NUM d"
  shows "slice_ok d s fs fb' i ag"
proof -
  have fs0: "0 \<le> fs" using fs es na by simp
  have row: "0 \<le> int i * fs" using fs0 by simp
  have eq: "\<And>x. 0 \<le> x \<Longrightarrow> x < fs \<Longrightarrow> fb' ! nat (int i * fs + x) = fb ! nat (int i * fs + x)"
  proof -
    fix x :: int assume x: "0 \<le> x" "x < fs"
    have "int (Suc i) * fs = int i * fs + fs" by (simp add: algebra_simps)
    then have "nat (int i * fs + x) < nat (int (Suc i) * fs)" using x row by linarith
    moreover have "nat (int i * fs) \<le> nat (int i * fs + x)" using x by linarith
    ultimately show "fb' ! nat (int i * fs + x) = fb ! nat (int i * fs + x)" using same by blast
  qed
  from ok have o1: "\<forall>k<nat (embedding_size s). fb ! nat (int i * fs + int k) = a_embedding ag k"
    and o2: "fb ! nat (int i * fs + (embedding_size s + a_action ag)) = 1"
    and o3: "fb ! nat (int i * fs + (embedding_size s + ACT_NUM d)) = a_last_reward ag"
    and o4: "fb ! nat (int i * fs + (embedding_size s + ACT_NUM d + 1)) =
               goal_diff (pos_x (a_pos ag)) (pos_x (a_goal ag))"
    and o5: "fb ! nat (int i * fs + (embedding_size s + ACT_NUM d + 2)) =
               goal_diff (pos_y (a_pos ag)) (pos_y (a_goal ag))"
    unfolding slice_ok_def by blast+
  show ?thesis
    unfolding slice_ok_def
  proof (intro conjI allI impI)
    fix k assume k: "k < nat (embedding_size s)"
    then have "0 \<le> int k" "int k < fs" using fs na by linarith+
    from eq[OF this] o1 k show "fb' ! nat (int i * fs + int k) = a_embedding ag k" by simp
  next
    have "0 \<le> embedding_size s + a_action ag" "embedding_size s + a_action ag < fs"
      using fs es act by linarith+
    from eq[OF this] o2 show "fb' ! nat (int i * fs + (embedding_size s + a_action ag)) = 1"
      by simp
  next
    have "0 \<le> embedding_size s + ACT_NUM d" "embedding_size s + ACT_NUM d < fs"
      using fs es na by linarith+
    from eq[OF this] o3
    show "fb' ! nat (int i * fs + (embedding_size s + ACT_NUM d)) = a_last_reward ag" by simp
  next
    have "0 \<le> embedding_size s + ACT_NUM d + 1" "embedding_size s + ACT_NUM d + 1 < fs"
      using fs es na by linarith+
    from eq[OF this] o4
    show "fb' ! nat (int i * fs + (embedding_size s + ACT_NUM d + 1)) =
            goal_diff (pos_x (a_pos ag)) (pos_x (a_goal ag))" by simp
  next
    have "0 \<le> embedding_size s + ACT_NUM d + 2" "embedding_size s + ACT_NUM d + 2 < fs"
      using fs es na by linarith+
    from eq[OF this] o5
    show "fb' ! nat (int i * fs + (embedding_size s + ACT_NUM d + 2)) =
            goal_diff (pos_y (a_pos ag)) (pos_y (a_goal ag))" by simp
  qed
qed


lemma rows_apart:
  assumes "i \<noteq> j" and fs0: "0 \<le> (fs::int)"
    and m: "nat (int i * fs) \<le> m" "m < nat (int (Suc i) * fs)"
  shows "m < nat (int j * fs) \<or> nat (int (Suc j) * fs) \<le> m"
proof (cases "i < j")
  case True
  then have "int (Suc i) \<le> int j" by simp
  then have "int (Suc i) * fs \<le> int j * fs" using fs0 by (rule mult_right_mono)
  then show ?thesis using m by linarith
next
  case False
  with assms(1) have "int (Suc j) \<le> int i" by simp
  then have "int (Suc j) * fs \<le> int i * fs" using fs0 by (rule mult_right_mono)
  then show ?thesis using m by linarith
qed

lemma obs_inv_step:
  assumes inv: "obs_inv d s fs P bufs"
    and run: "observe_agent d s fs j bufs = Inr bufs'"
    and fs: "fs = embedding_size s + ACT_NUM d + 1 + 2"
    and es: "0 \<le> embedding_size s" and na: "0 \<le> ACT_NUM d"
    and acts: "actions_in_range d s"
    and j: "j < length (agents s)" and P: "\<forall>i\<in>P. i < length (agents s)"
  shows "obs_inv d s fs (insert j P) bufs'"
proof -
  from run obtain agj where agj: "deref (heap s) (agents s ! j) = Inr agj"
    by (auto simp: observe_agent_def bindE_eq_Inr)
  have actj: "0 \<le> a_action agj" "a_action agj < ACT_NUM d"
    using acts j agj by (simp_all add: actions_in_range_def)
  from observe_agent_post[OF run fs es na agj actj]
  have frame: "\<forall>m. m < nat (int j * fs) \<or> nat (int (Suc j) * fs) \<le> m \<longrightarrow>
                 snd bufs' ! m = snd bufs ! m"
    and new: "slice_ok d s fs (snd bufs') j agj" by simp_all
  have fs0: "0 \<le> fs" using fs es na by simp
  show ?thesis
    unfolding obs_inv_def
  proof (intro ballI allI impI)
    fix i ag assume i: "i \<in> insert j P" and ag: "deref (heap s) (agents s ! i) = Inr ag"
    show "slice_ok d s fs (snd bufs') i ag"
    proof (cases "i = j")
      case True
      with ag agj new show ?thesis by simp
    next
      case False
      with i have iP: "i \<in> P" by simp
      then have old: "slice_ok d s fs (snd bufs) i ag" using inv ag by (simp add: obs_inv_def)
      have il: "i < length (agents s)" using P iP by blast
      have acti: "0 \<le> a_action ag" "a_action ag < ACT_NUM d"
        using acts il ag by (simp_all add: actions_in_range_def)
      have "\<forall>m. nat (int i * fs) \<le> m \<and> m < nat (int (Suc i) * fs) \<longrightarrow>
                 snd bufs' ! m = snd bufs ! m"
        using frame rows_apart[OF False fs0] by blast
      from slice_ok_frame[OF old this fs es na acti] show ?thesis .
    qed
  qed
qed

lemma obs_iterate:
  assumes it: "iterate js (observe_agent d s fs) b = Inr b'"
    and inv: "obs_inv d s fs P b"
    and js: "\<forall>j\<in>set js. j < length (agents s)" and P: "\<forall>i\<in>P. i < length (agents s)"
    and fs: "fs = embedding_size s + ACT_NUM d + 1 + 2"
    and es: "0 \<le> embedding_size s" and na: "0 \<le> ACT_NUM d"
    and acts: "actions_in_range d s"
  shows "obs_inv d s fs (P \<union> set js) b'"
  using it inv js P
proof (induction js arbitrary: b P)
  case Nil
  then show ?case by simp
next
  case (Cons j js)
  from Cons.prems(1) obtain b1 where b1: "observe_agent d s fs j b = Inr b1"
    and rest: "iterate js (observe_agent d s fs) b1 = Inr b'"
    by (auto split: sum.splits)
  have j: "j < length (agents s)" using Cons.prems(3) by simp
  have inv1: "obs_inv d s fs (insert j P) b1"
    by (rule obs_inv_step[OF Cons.prems(2) b1 fs es na acts j Cons.prems(4)])
  have "obs_inv d s fs (insert j P \<union> set js) b'"
  proof (rule Cons.IH[OF rest inv1])
    show "\<forall>j\<in>set js. j < length (agents s)" using Cons.prems(3) by simp
    show "\<forall>i\<in>insert j P. i < length (agents s)" using Cons.prems(4) j by simp
  qed
  then show ?case by simp
qed

lemma get_observation_slices:
  assumes run: "get_observation d s grp sched bufs = Inr (vb, fb)"
    and sched: "schedule (length (agents s)) sched"
    and es: "0 \<le> embedding_size s" and na: "0 \<le> ACT_NUM d"
    and fit: "embedding_size s + ACT_NUM d + 3 < 2147483648"
    and acts: "actions_in_range d s"
    and i: "i < length (agents s)" and ag: "deref (heap s) (agents s ! i) = Inr ag"
  shows "slice_ok d s (embedding_size s + ACT_NUM d + 1 + 2) fb i ag"
proof -
  let ?fs = "embedding_size s + ACT_NUM d + 1 + 2"
  have F: "get_feature_size d s grp = ?fs" by (rule feature_size_exact[OF es na fit])
  from run obtain b0 where it: "iterate sched (observe_agent d s ?fs) b0 = Inr (vb, fb)"
    by (auto simp: get_observation_def F Let_def bindE_eq_Inr)
  have set: "set sched = {0..<length (agents s)}" using sched by (simp add: schedule_def)
  have "obs_inv d s ?fs ({} \<union> set sched) (vb, fb)"
  proof (rule obs_iterate[OF it _ _ _ refl es na acts])
    show "obs_inv d s ?fs {} b0" by (simp add: obs_inv_def)
    show "\<forall>j\<in>set sched. j < length (agents s)" using set by simp
    show "\<forall>i\<in>{}. i < length (agents s)" by simp
  qed
  with i ag set show ?thesis by (simp add: obs_inv_def)
qed

lemmas obs_simps = obs_city_def cars_city_def car_a_def car_b_def fresh_city_def
  sample_deps_def deref_def Let_def

lemma obs_city_size: "get_feature_size sample_deps obs_city 0 = 10"
  by (simp add: get_feature_size_def wrap32_def obs_simps)

lemma obs_city_run:
  "get_observation sample_deps obs_city 0 [0, 1] (replicate 72 7, replicate 20 7) =
     Inr (replicate 72 0,
          [11, 11, 0, 1, 0, 0, 0, 9, -1, -2,
           12, 12, 0, 0, 0, 0, 1, 0, 6, -6])"
  by (simp add: obs_simps get_observation_def get_feature_size_def wrap32_def zero_fill_def
        observe_agent_def get_embedding_def wr_def upt_rec eval_nat_numeral goal_diff_exact)

lemma obs_city_run_reversed:
  "get_observation sample_deps obs_city 0 [1, 0] (replicate 72 7, replicate 20 7) =
     Inr (replicate 72 0,
          [11, 11, 0, 1, 0, 0, 0, 9, -1, -2,
           12, 12, 0, 0, 0, 0, 1, 0, 6, -6])"
  by (simp add: obs_simps get_observation_def get_feature_size_def wrap32_def zero_fill_def
        observe_agent_def get_embedding_def wr_def upt_rec eval_nat_numeral goal_diff_exact)

lemma obs_city_facts:
  "0 \<le> embedding_size obs_city" "0 \<le> ACT_NUM sample_deps"
  "embedding_size obs_city + ACT_NUM sample_deps + 3 < 2147483648"
  "actions_in_range sample_deps obs_city"
  "length (agents obs_city) = 2"
  "deref (heap obs_city) (agents obs_city ! 0) = Inr car_a"
  "deref (heap obs_city) (agents obs_city ! 1) = Inr car_b"
  "embedding_size obs_city = 2" "ACT_NUM sample_deps = 5"
  "schedule (length (agents obs_city)) [0, 1]" "schedule (length (agents obs_city)) [1, 0]"
  by (auto simp: obs_city_def cars_city_def fresh_city_def sample_deps_def deref_def Let_def
        actions_in_range_def schedule_def car_a_def car_b_def less_Suc_eq)


text \<open>C5 (as the code has it): let \<open>get_observation\<close> return, with its rounds run in any
  order; let the embedding size and the action count be non-negative and their sum with 3
  fit in an \<open>int\<close>; and let every agent's last action lie in \<open>[0, ACT_NUM)\<close>. Then for
  every agent \<open>i\<close> of the list, with \<open>F\<close> the feature size, entry \<open>F - 3\<close> of its feature
  vector is the last reward, and the last two entries, \<open>F - 2\<close> and \<open>F - 1\<close>, are
  \<open>pos.x - goal.x\<close> and \<open>pos.y - goal.y\<close>, current position minus goal, subtracted as
  \<open>int\<close> and converted to \<open>float\<close>: the exact difference when its magnitude is at most
  \<open>2^24\<close>.\<close>

theorem observation_goal_difference:
  assumes "get_observation d s grp sched bufs = Inr (vb, fb)"
    and "schedule (length (agents s)) sched"
    and "0 \<le> embedding_size s" and "0 \<le> ACT_NUM d"
    and "embedding_size s + ACT_NUM d + 3 < 2147483648"
    and "actions_in_range d s"
    and "i < length (agents s)" and "deref (heap s) (agents s ! i) = Inr ag"
    and "F = get_feature_size d s grp"
  shows "fb ! nat (int i * F + (F - 3)) = a_last_reward ag
       \<and> fb ! nat (int i * F + (F - 2)) =
           float_of_int (wrap32 (pos_x (a_pos ag) - pos_x (a_goal ag)))
       \<and> fb ! nat (int i * F + (F - 1)) =
           float_of_int (wrap32 (pos_y (a_pos ag) - pos_y (a_goal ag)))
       \<and> (\<bar>pos_x (a_pos ag) - pos_x (a_goal ag)\<bar> \<le> 16777216 \<longrightarrow>
            fb ! nat (int i * F + (F - 2)) = real_of_int (pos_x (a_pos ag) - pos_x (a_goal ag)))
       \<and> (\<bar>pos_y (a_pos ag) - pos_y (a_goal ag)\<bar> \<le> 16777216 \<longrightarrow>
            fb ! nat (int i * F + (F - 1)) = real_of_int (pos_y (a_pos ag) - pos_y (a_goal ag)))"
proof -
  have F: "F = embedding_size s + ACT_NUM d + 1 + 2"
    using assms(9) feature_size_exact[OF assms(3,4,5)] by simp
  have "slice_ok d s F fb i ag"
    unfolding F by (rule get_observation_slices[OF assms(1-8)])
  then have r: "fb ! nat (int i * F + (embedding_size s + ACT_NUM d)) = a_last_reward ag"
    and x: "fb ! nat (int i * F + (embedding_size s + ACT_NUM d + 1)) =
           goal_diff (pos_x (a_pos ag)) (pos_x (a_goal ag))"
    and y: "fb ! nat (int i * F + (embedding_size s + ACT_NUM d + 2)) =
           goal_diff (pos_y (a_pos ag)) (pos_y (a_goal ag))"
    unfolding slice_ok_def by blast+
  have f3: "F - 3 = embedding_size s + ACT_NUM d"
    and f2: "F - 2 = embedding_size s + ACT_NUM d + 1"
    and f1: "F - 1 = embedding_size s + ACT_NUM d + 2"
    using F by simp_all
  have ex: "\<bar>pos_x (a_pos ag) - pos_x (a_goal ag)\<bar> \<le> 16777216 \<longrightarrow>
            goal_diff (pos_x (a_pos ag)) (pos_x (a_goal ag)) =
              real_of_int (pos_x (a_pos ag) - pos_x (a_goal ag))"
    and ey: "\<bar>pos_y (a_pos ag) - pos_y (a_goal ag)\<bar> \<le> 16777216 \<longrightarrow>
            goal_diff (pos_y (a_pos ag)) (pos_y (a_goal ag)) =
              real_of_int (pos_y (a_pos ag) - pos_y (a_goal ag))"
    using goal_diff_exact by blast+
  show ?thesis
    unfolding f3 f2 f1 using r x y ex ey unfolding goal_diff_def by presburger
qed

theorem observation_goal_difference_witness:
  "get_observation sample_deps obs_city 0 [1, 0] (replicate 72 7, replicate 20 7) =
     Inr (replicate 72 0, [11, 11, 0, 1, 0, 0, 0, 9, -1, -2, 12, 12, 0, 0, 0, 0, 1, 0, 6, -6])
   \<and> schedule (length (agents obs_city)) [1, 0]
   \<and> actions_in_range sample_deps obs_city
   \<and> deref (heap obs_city) (agents obs_city ! 1) = Inr car_b
   \<and> get_feature_size sample_deps obs_city 0 = 10
   \<and> [11, 11, 0, 1, 0, 0, 0, 9, -1, -2, 12, 12, 0, 0, 0, 0, 1, 0, 6, -6] ! 18
       = real_of_int (pos_x (a_pos car_b) - pos_x (a_goal car_b))
   \<and> [11, 11, 0, 1, 0, 0, 0, 9, -1, -2, 12, 12, 0, 0, 0, 0, 1, 0, 6, -6 :: real] ! 19
       = real_of_int (pos_y (a_pos car_b) - pos_y (a_goal car_b))"
proof -
  have F: "(10 :: int) = get_feature_size sample_deps obs_city 0"
    by (simp add: obs_city_size)
  have i: "1 < length (agents obs_city)" by (simp add: obs_city_facts)
  from observation_goal_difference[OF obs_city_run_reversed obs_city_facts(11)
       obs_city_facts(1,2,3,4) i obs_city_facts(7) F]
  show ?thesis
    using obs_city_facts(4,7,11) F
    by (simp add: obs_city_run_reversed[unfolded One_nat_def] car_b_def)
qed

text \<open>C5 as stated fails: the first car stands at \<open>(3, 5)\<close> and its goal is \<open>(4, 7)\<close>;
  whichever of the two rounds runs first, the last two entries of its feature vector are
  \<open>-1\<close> and \<open>-2\<close>, not the goal coordinate minus the position coordinate, \<open>1\<close> and \<open>2\<close>.\<close>

theorem observation_goal_difference_counterexample:
  "bindE (get_observation sample_deps obs_city 0 [0, 1] (replicate 72 7, replicate 20 7))
     (\<lambda>b. Inr (take 2 (drop 8 (snd b)))) = Inr [-1, -2]
   \<and> bindE (get_observation sample_deps obs_city 0 [1, 0] (replicate 72 7, replicate 20 7))
       (\<lambda>b. Inr (take 2 (drop 8 (snd b)))) = Inr [-1, -2]
   \<and> deref (heap obs_city) (agents obs_city ! 0) = Inr car_a
   \<and> pos_x (a_goal car_a) - pos_x (a_pos car_a) = 1
   \<and> pos_y (a_goal car_a) - pos_y (a_pos car_a) = 2"
  by (simp add: obs_city_run[unfolded One_nat_def] obs_city_run_reversed[unfolded One_nat_def]
        obs_city_facts car_a_def)

text \<open>C9 (as the code has it): after \<open>embedding_size\<close> has been configured as \<open>e\<close>, with
  \<open>e\<close> and the action count \<open>ACT_NUM\<close> (what \<open>get_info("action_space")\<close> reports)
  non-negative and \<open>e + ACT_NUM + 3\<close> within the range of \<open>int\<close>,
  \<open>get_info("feature_space")\<close> reports \<open>F = e + ACT_NUM + 1 + 2\<close>. And whenever
  \<open>get_observation\<close> returns, with its rounds run in any order and every agent's last
  action in \<open>[0, ACT_NUM)\<close>, the feature vector of agent \<open>i\<close> lies at the flat indices
  from \<open>i * F\<close> on: its embedding at \<open>i * F + k\<close> for \<open>k < e\<close> and its last entry, the
  difference to the goal in \<open>y\<close>, at \<open>i * F + (F - 1)\<close>.\<close>

theorem feature_space_is_stride:
  assumes cfg: "set_config d s0 ''embedding_size'' e sv = Inr s"
    and e0: "0 \<le> e" and na: "0 \<le> ACT_NUM d" and fit: "e + ACT_NUM d + 3 < 2147483648"
    and F: "F = e + ACT_NUM d + 1 + 2"
  shows "get_info d s grp ''feature_space'' = Inr (Ints [F])
       \<and> get_info d s grp ''action_space'' = Inr (Ints [ACT_NUM d])
       \<and> (\<forall>sched bufs vb fb i ag.
            get_observation d s grp sched bufs = Inr (vb, fb)
            \<and> schedule (length (agents s)) sched \<and> actions_in_range d s
            \<and> i < length (agents s) \<and> deref (heap s) (agents s ! i) = Inr ag \<longrightarrow>
            (\<forall>k<nat e. fb ! nat (int i * F + int k) = a_embedding ag k)
            \<and> fb ! nat (int i * F + (F - 1)) =
                float_of_int (wrap32 (pos_y (a_pos ag) - pos_y (a_goal ag))))"
proof -
  from cfg have e: "embedding_size s = e" by (auto simp: set_config_def)
  have es: "0 \<le> embedding_size s" and fit': "embedding_size s + ACT_NUM d + 3 < 2147483648"
    using e e0 fit by simp_all
  have size: "get_feature_size d s grp = F"
    using feature_size_exact[OF es na fit'] e F by simp
  have info: "get_info d s grp ''feature_space'' = Inr (Ints [F])"
    by (simp add: get_info_def size)
  have act: "get_info d s grp ''action_space'' = Inr (Ints [ACT_NUM d])"
    by (simp add: get_info_def)
  have stride: "\<forall>sched bufs vb fb i ag.
            get_observation d s grp sched bufs = Inr (vb, fb)
            \<and> schedule (length (agents s)) sched \<and> actions_in_range d s
            \<and> i < length (agents s) \<and> deref (heap s) (agents s ! i) = Inr ag \<longrightarrow>
            (\<forall>k<nat e. fb ! nat (int i * F + int k) = a_embedding ag k)
            \<and> fb ! nat (int i * F + (F - 1)) =
                float_of_int (wrap32 (pos_y (a_pos ag) - pos_y (a_goal ag)))"
  proof (intro allI impI)
    fix sched bufs vb fb i ag
    assume h: "get_observation d s grp sched bufs = Inr (vb, fb)
            \<and> schedule (length (agents s)) sched \<and> actions_in_range d s
            \<and> i < length (agents s) \<and> deref (heap s) (agents s ! i) = Inr ag"
    then have "slice_ok d s (embedding_size s + ACT_NUM d + 1 + 2) fb i ag"
      using get_observation_slices[OF _ _ es na fit', of grp sched bufs vb fb i ag] by blast
    then have ok: "slice_ok d s F fb i ag" using e F by simp
    from ok have emb: "\<forall>k<nat (embedding_size s). fb ! nat (int i * F + int k) = a_embedding ag k"
      and dy: "fb ! nat (int i * F + (embedding_size s + ACT_NUM d + 2)) =
                goal_diff (pos_y (a_pos ag)) (pos_y (a_goal ag))"
      unfolding slice_ok_def by blast+
    have f1: "F - 1 = embedding_size s + ACT_NUM d + 2" using e F by simp
    show "(\<forall>k<nat e. fb ! nat (int i * F + int k) = a_embedding ag k)
            \<and> fb ! nat (int i * F + (F - 1)) =
                float_of_int (wrap32 (pos_y (a_pos ag) - pos_y (a_goal ag)))"
      unfolding f1 e[symmetric] using emb dy unfolding goal_diff_def by blast
  qed
  from info act stride show ?thesis by blast
qed

theorem feature_space_is_stride_witness:
  "set_config sample_deps cars_city ''embedding_size'' 2 [] = Inr obs_city
   \<and> (0 :: int) \<le> 2 \<and> 0 \<le> ACT_NUM sample_deps \<and> 2 + ACT_NUM sample_deps + 3 < 2147483648
   \<and> (10 :: int) = 2 + ACT_NUM sample_deps + 1 + 2
   \<and> get_info sample_deps obs_city 0 ''feature_space'' = Inr (Ints [10])
   \<and> get_info sample_deps obs_city 0 ''action_space'' = Inr (Ints [5])
   \<and> get_observation sample_deps obs_city 0 [1, 0] (replicate 72 7, replicate 20 7) =
       Inr (replicate 72 0, [11, 11, 0, 1, 0, 0, 0, 9, -1, -2, 12, 12, 0, 0, 0, 0, 1, 0, 6, -6])
   \<and> [11, 11, 0, 1, 0, 0, 0, 9, -1, -2, 12, 12, 0, 0, 0, 0, 1, 0, 6, -6 :: real] ! (1 * 10 + 0)
       = a_embedding car_b 0
   \<and> [11, 11, 0, 1, 0, 0, 0, 9, -1, -2, 12, 12, 0, 0, 0, 0, 1, 0, 6, -6 :: real] ! (1 * 10 + 9)
       = real_of_int (pos_y (a_pos car_b) - pos_y (a_goal car_b))"
proof -
  have cfg: "set_config sample_deps cars_city ''embedding_size'' 2 [] = Inr obs_city"
    by (simp add: set_config_def obs_city_def)
  have e0: "(0 :: int) \<le> 2" and na: "0 \<le> ACT_NUM sample_deps"
    and fit: "2 + ACT_NUM sample_deps + 3 < 2147483648"
    and F: "(10 :: int) = 2 + ACT_NUM sample_deps + 1 + 2"
    by (simp_all add: obs_city_facts)
  note inst = feature_space_is_stride[OF cfg e0 na fit F, of 0]
  from inst have info: "get_info sample_deps obs_city 0 ''feature_space'' = Inr (Ints [10])"
    and act: "get_info sample_deps obs_city 0 ''action_space'' = Inr (Ints [5])"
    by (simp_all add: obs_city_facts)
  show ?thesis
    using info act cfg e0 na fit F
    by (simp add: obs_city_run_reversed[unfolded One_nat_def] car_b_def)
qed

text \<open>C9 as stated fails: with \<open>embedding_size\<close> configured as \<open>2147483647\<close> and five
  actions, \<open>embedding_size + ACT_NUM + 1 + 2\<close> is \<open>2147483655\<close>, and the 32-bit sum that
  \<open>get_info("feature_space")\<close> reports is \<open>-2147483641\<close>.\<close>

theorem feature_space_counterexample:
  "bindE (set_config sample_deps fresh_city ''embedding_size'' 2147483647 [])
     (\<lambda>s. get_info sample_deps s 0 ''feature_space'') = Inr (Ints [- 2147483641])
   \<and> bindE (set_config sample_deps fresh_city ''embedding_size'' 2147483647 [])
       (\<lambda>s. get_info sample_deps s 0 ''action_space'') = Inr (Ints [5])
   \<and> (2147483647 :: int) + 5 + 1 + 2 = 2147483655"
  by (simp add: set_config_def get_info_def get_feature_size_def wrap32_def sample_deps_def)

subsection \<open>Agent ids\<close>

lemma ids_kept_refl: "ids_kept s s"
  by (simp add: ids_kept_def)

lemma ids_kept_trans:
  assumes "ids_kept s t" and "ids_kept t u"
  shows "ids_kept s u"
  unfolding ids_kept_def
proof (intro conjI ballI)
  show "id_counter s \<le> id_counter u" using assms by (simp add: ids_kept_def)
  show "length (heap s) \<le> length (heap u)" using assms by (simp add: ids_kept_def)
  fix a assume a: "a \<in> set (agents u)"
  from assms(2) a consider
    (old) "a \<in> set (agents t)" "id_at (heap u) a = id_at (heap t) a"
    | (new) "length (heap t) \<le> a" "id_counter t \<le> id_at (heap u) a"
    unfolding ids_kept_def by blast
  then show "(a \<in> set (agents s) \<and> id_at (heap u) a = id_at (heap s) a) \<or>
         (length (heap s) \<le> a \<and> id_counter s \<le> id_at (heap u) a)"
  proof cases
    case old
    from assms(1) old(1) have
      "(a \<in> set (agents s) \<and> id_at (heap t) a = id_at (heap s) a) \<or>
         (length (heap s) \<le> a \<and> id_counter s \<le> id_at (heap t) a)"
      unfolding ids_kept_def by blast
    with old(2) show ?thesis by simp
  next
    case new
    moreover have "length (heap s) \<le> length (heap t)" "id_counter s \<le> id_counter t"
      using assms(1) by (simp_all add: ids_kept_def)
    ultimately show ?thesis by simp
  qed
qed

lemma place_agent_eq:
  "place_agent p t =
     t\<lparr>id_counter := id_counter t + 1,
       heap := heap t @ [Some (set_pos p (fst (Agent_new (id_counter t))))],
       city_map := city_map t @ [AddAgent (length (heap t))],
       agents := agents t @ [length (heap t)]\<rparr>"
  by (simp add: place_agent_def Agent_new_def new_agent_def Let_def)

lemma deref_append_old: "a < length h \<Longrightarrow> deref (h @ xs) a = deref h a"
  by (simp add: deref_def nth_append)

lemma deref_append_new: "deref (h @ [Some ag]) (length h) = Inr ag"
  by (simp add: deref_def)

lemma live_ptrs_bound: "live_ptrs h as \<Longrightarrow> a \<in> set as \<Longrightarrow> a < length h"
  by (auto simp: live_ptrs_def deref_Inr)

lemma place_agent_ids:
  assumes ok: "ids_ok t"
  shows "ids_ok (place_agent p t) \<and> ids_kept t (place_agent p t)"
proof -
  let ?h = "heap t" and ?c = "id_counter t"
  let ?ag = "set_pos p (fst (Agent_new ?c))"
  let ?h' = "?h @ [Some ?ag]"
  let ?a = "length ?h"
  from ok have lp: "live_ptrs ?h (agents t)"
    and srt: "sorted_wrt (<) (map (id_at ?h) (agents t))"
    and bnd: "\<forall>a\<in>set (agents t). id_at ?h a < ?c"
    by (simp_all add: ids_ok_def)
  have old_lt: "\<And>a. a \<in> set (agents t) \<Longrightarrow> a < ?a" using live_ptrs_bound[OF lp] .
  have old_deref: "\<And>a. a \<in> set (agents t) \<Longrightarrow> deref ?h' a = deref ?h a"
    using old_lt by (simp add: deref_append_old)
  have old_id: "\<And>a. a \<in> set (agents t) \<Longrightarrow> id_at ?h' a = id_at ?h a"
    using old_deref by (simp add: id_at_def)
  have new_id: "id_at ?h' ?a = ?c"
    by (simp add: id_at_def deref_append_new set_pos_def Agent_new_def)
  have fresh: "?a \<notin> set (agents t)" using old_lt by blast
  have lp': "live_ptrs ?h' (agents t @ [?a])"
    using lp fresh old_deref by (auto simp: live_ptrs_def deref_append_new)
  have map_old: "map (id_at ?h') (agents t) = map (id_at ?h) (agents t)"
    using old_id by simp
  have srt': "sorted_wrt (<) (map (id_at ?h') (agents t @ [?a]))"
    using srt bnd by (simp add: map_old sorted_wrt_append new_id)
  have bnd': "\<forall>a\<in>set (agents t @ [?a]). id_at ?h' a < ?c + 1"
    using bnd old_id new_id by auto
  have ok': "ids_ok (place_agent p t)"
    unfolding ids_ok_def place_agent_eq using lp' srt' bnd' by simp
  have kept: "ids_kept t (place_agent p t)"
    unfolding ids_kept_def place_agent_eq using old_id new_id by auto
  from ok' kept show ?thesis ..
qed

lemma iterate_ids:
  assumes it: "iterate [0..<k] body s = Inr s'" and ok: "ids_ok s"
    and step: "\<And>i t t'. ids_ok t \<Longrightarrow> body i t = Inr t' \<Longrightarrow> ids_ok t' \<and> ids_kept t t'"
  shows "ids_ok s' \<and> ids_kept s s'"
proof (rule iterate_upt_partial[OF it, of "\<lambda>i t. ids_ok t \<and> ids_kept s t"])
  show "ids_ok s \<and> ids_kept s s" using ok by (simp add: ids_kept_refl)
  show "0 \<le> k" by simp
  fix i t t'
  assume "ids_ok t \<and> ids_kept s t" and b: "body i t = Inr t'"
  then have okt: "ids_ok t" and ks: "ids_kept s t" by simp_all
  from step[OF okt b] have "ids_ok t'" and "ids_kept t t'" by simp_all
  with ks show "ids_ok t' \<and> ids_kept s t'" using ids_kept_trans by blast
qed

lemma frame_step:
  assumes "ids_ok t" and "agents t' = agents t" and "heap t' = heap t"
    and "id_counter t' = id_counter t"
  shows "ids_ok t' \<and> ids_kept t t'"
  using assms by (simp add: ids_ok_def ids_kept_def)

lemma add_wall_row_ids:
  assumes "ids_ok t" and "add_wall_row d buf i t = Inr t'"
  shows "ids_ok t' \<and> ids_kept t t'"
proof (rule frame_step[OF assms(1)])
  from assms(2) obtain cm ws where "t' = t\<lparr>city_map := cm, walls := ws\<rparr>"
    by (auto simp: add_wall_row_def bindE_eq_Inr)
  then show "agents t' = agents t" "heap t' = heap t" "id_counter t' = id_counter t"
    by simp_all
qed

lemma add_light_row_ids:
  assumes "ids_ok t" and "add_light_row d buf i t = Inr t'"
  shows "ids_ok t' \<and> ids_kept t t'"
proof (rule frame_step[OF assms(1)])
  from assms(2) obtain cm e ls where "t' = t\<lparr>city_map := cm, random_engine := e, lights := ls\<rparr>"
    by (auto simp: add_light_row_def bindE_eq_Inr Let_def)
  then show "agents t' = agents t" "heap t' = heap t" "id_counter t' = id_counter t"
    by simp_all
qed

lemma add_park_row_ids:
  assumes "ids_ok t" and "add_park_row buf i t = Inr t'"
  shows "ids_ok t' \<and> ids_kept t t'"
proof (rule frame_step[OF assms(1)])
  from assms(2) obtain cm ps where "t' = t\<lparr>city_map := cm, parks := ps\<rparr>"
    by (auto simp: add_park_row_def bindE_eq_Inr Let_def)
  then show "agents t' = agents t" "heap t' = heap t" "id_counter t' = id_counter t"
    by simp_all
qed

lemma add_building_row_ids:
  assumes "ids_ok t" and "add_building_row buf i t = Inr t'"
  shows "ids_ok t' \<and> ids_kept t t'"
proof (rule frame_step[OF assms(1)])
  from assms(2) obtain cm bs where "t' = t\<lparr>city_map := cm, buildings := bs\<rparr>"
    by (auto simp: add_building_row_def bindE_eq_Inr)
  then show "agents t' = agents t" "heap t' = heap t" "id_counter t' = id_counter t"
    by simp_all
qed

lemma add_car_custom_ids:
  assumes "ids_ok t" and "add_car_custom buf i t = Inr t'"
  shows "ids_ok t' \<and> ids_kept t t'"
proof -
  from assms(2) obtain p where "t' = place_agent p t"
    by (auto simp: add_car_custom_def bindE_eq_Inr)
  with place_agent_ids[OF assms(1)] show ?thesis by simp
qed

lemma add_car_random_ids:
  assumes "ids_ok t" and "add_car_random d i t = Inr t'"
  shows "ids_ok t' \<and> ids_kept t t'"
proof -
  from assms(2) obtain p e where t': "t' = place_agent p (t\<lparr>random_engine := e\<rparr>)"
    by (auto simp: add_car_random_def Let_def split: prod.splits)
  let ?u = "t\<lparr>random_engine := e\<rparr>"
  have u: "ids_ok ?u \<and> ids_kept t ?u" by (rule frame_step[OF assms(1)]) simp_all
  then have "ids_ok (place_agent p ?u) \<and> ids_kept ?u (place_agent p ?u)"
    using place_agent_ids by blast
  with u t' show ?thesis using ids_kept_trans by blast
qed

lemma add_object_wall:
  "add_object d s (-1) n m buf =
     (if m = ''custom'' then iterate [0..<nat n] (add_wall_row d buf) s else Inr s)"
  by (simp add: add_object_def for_upto_def)

lemma add_object_light:
  "add_object d s (-2) n m buf =
     (if m = ''custom'' then iterate [0..<nat n] (add_light_row d buf) s else Inr s)"
  by (simp add: add_object_def for_upto_def)

lemma add_object_park:
  "add_object d s (-3) n m buf =
     (if m = ''custom'' then iterate [0..<nat n] (add_park_row buf) s else Inr s)"
  by (simp add: add_object_def for_upto_def)

lemma add_object_building:
  "add_object d s (-4) n m buf =
     (if m = ''custom'' then iterate [0..<nat n] (add_building_row buf) s else Inr s)"
  by (simp add: add_object_def for_upto_def)

lemma add_object_car:
  "add_object d s 0 n m buf =
     (if m = ''random'' then iterate [0..<nat n] (add_car_random d) s
      else if m = ''custom'' then iterate [0..<nat n] (add_car_custom buf) s
      else Inl (Fatal (''unsupported method in TransCity::add_object: '' @ m)))"
  by (simp add: add_object_def for_upto_def)

lemma add_object_other:
  assumes "obj_id \<noteq> -1" "obj_id \<noteq> -2" "obj_id \<noteq> -3" "obj_id \<noteq> -4" "obj_id \<noteq> 0"
  shows "add_object d s obj_id n m buf = Inr s"
  using assms by (simp add: add_object_def)

lemma add_object_ids:
  assumes ok: "ids_ok s" and run: "add_object d s obj_id n method buf = Inr s'"
  shows "ids_ok s' \<and> ids_kept s s'"
proof -
  have same: "Inr s = Inr s' \<Longrightarrow> ?thesis" using ok by (auto simp: ids_kept_refl)
  consider "obj_id = -1" | "obj_id = -2" | "obj_id = -3" | "obj_id = -4" | "obj_id = 0"
    | "obj_id \<noteq> -1" "obj_id \<noteq> -2" "obj_id \<noteq> -3" "obj_id \<noteq> -4" "obj_id \<noteq> 0"
    by blast
  then show ?thesis
  proof cases
    case 1
    show ?thesis
    proof (cases "method = ''custom''")
      case True
      with run 1 have "iterate [0..<nat n] (add_wall_row d buf) s = Inr s'"
        by (simp add: add_object_wall)
      from iterate_ids[OF this ok] add_wall_row_ids show ?thesis by blast
    next
      case False
      with run 1 have "Inr s = Inr s'" by (simp add: add_object_wall)
      then show ?thesis by (rule same)
    qed
  next
    case 2
    show ?thesis
    proof (cases "method = ''custom''")
      case True
      with run 2 have "iterate [0..<nat n] (add_light_row d buf) s = Inr s'"
        by (simp add: add_object_light)
      from iterate_ids[OF this ok] add_light_row_ids show ?thesis by blast
    next
      case False
      with run 2 have "Inr s = Inr s'" by (simp add: add_object_light)
      then show ?thesis by (rule same)
    qed
  next
    case 3
    show ?thesis
    proof (cases "method = ''custom''")
      case True
      with run 3 have "iterate [0..<nat n] (add_park_row buf) s = Inr s'"
        by (simp add: add_object_park)
      from iterate_ids[OF this ok] add_park_row_ids show ?thesis by blast
    next
      case False
      with run 3 have "Inr s = Inr s'" by (simp add: add_object_park)
      then show ?thesis by (rule same)
    qed
  next
    case 4
    show ?thesis
    proof (cases "method = ''custom''")
      case True
      with run 4 have "iterate [0..<nat n] (add_building_row buf) s = Inr s'"
        by (simp add: add_object_building)
      from iterate_ids[OF this ok] add_building_row_ids show ?thesis by blast
    next
      case False
      with run 4 have "Inr s = Inr s'" by (simp add: add_object_building)
      then show ?thesis by (rule same)
    qed
  next
    case 5
    show ?thesis
    proof (cases "method = ''random''")
      case True
      with run 5 have "iterate [0..<nat n] (add_car_random d) s = Inr s'"
        by (simp add: add_object_car)
      from iterate_ids[OF this ok] add_car_random_ids show ?thesis by blast
    next
      case nr: False
      show ?thesis
      proof (cases "method = ''custom''")
        case True
        with run 5 nr have "iterate [0..<nat n] (add_car_custom buf) s = Inr s'"
          by (simp add: add_object_car)
        from iterate_ids[OF this ok] add_car_custom_ids show ?thesis by blast
      next
        case False
        with run 5 nr show ?thesis by (simp add: add_object_car)
      qed
    qed
  next
    case 6
    from run add_object_other[OF 6, of d s n "method" buf] have "Inr s = Inr s'" by simp
    then show ?thesis by (rule same)
  qed
qed

lemma clear_dead_ids:
  assumes ok: "ids_ok s" and run: "clear_dead s = Inr s'"
  shows "ids_ok s' \<and> ids_kept s s'"
proof -
  let ?h = "heap s" and ?as = "agents s"
  let ?keep = "filter (\<lambda>a. \<not> dead_at ?h a) ?as"
  from ok have lp: "live_ptrs ?h ?as"
    and srt: "sorted_wrt (<) (map (id_at ?h) ?as)"
    and bnd: "\<forall>a\<in>set ?as. id_at ?h a < id_counter s"
    by (simp_all add: ids_ok_def)
  from clear_dead_spec[OF lp] run obtain h' where
    s': "s' = s\<lparr>agents := ?keep, heap := h'\<rparr>"
    and lh: "length h' = length ?h"
    and dn: "\<forall>a\<in>set ?as. h' ! a = (if dead_at ?h a then None else map_option init_reward (?h ! a))"
    by auto
  have surv: "\<And>a. a \<in> set ?keep \<Longrightarrow> \<exists>ag. deref ?h a = Inr ag \<and> deref h' a = Inr (init_reward ag)"
  proof -
    fix a assume "a \<in> set ?keep"
    then have a: "a \<in> set ?as" and nd: "\<not> dead_at ?h a" by simp_all
    from live_not_dead[OF lp a nd] obtain ag where ag: "deref ?h a = Inr ag" by blast
    then have "?h ! a = Some ag" and "a < length ?h" by (simp_all add: deref_Inr)
    with dn a nd lh have "deref h' a = Inr (init_reward ag)" by (simp add: deref_Inr)
    with ag show "\<exists>ag. deref ?h a = Inr ag \<and> deref h' a = Inr (init_reward ag)" by blast
  qed
  have same_id: "\<And>a. a \<in> set ?keep \<Longrightarrow> id_at h' a = id_at ?h a"
  proof -
    fix a assume "a \<in> set ?keep"
    from surv[OF this] obtain ag where "deref ?h a = Inr ag" "deref h' a = Inr (init_reward ag)"
      by blast
    then show "id_at h' a = id_at ?h a" by (simp add: id_at_def init_reward_def)
  qed
  have lp': "live_ptrs h' ?keep"
    unfolding live_ptrs_def
  proof (intro conjI ballI)
    show "distinct ?keep" using lp by (simp add: live_ptrs_def)
    fix a assume "a \<in> set ?keep"
    from surv[OF this] show "\<exists>ag. deref h' a = Inr ag" by blast
  qed
  have "sorted_wrt (\<lambda>a b. id_at ?h a < id_at ?h b) ?as"
    using srt by (simp add: sorted_wrt_map)
  then have "sorted_wrt (\<lambda>a b. id_at ?h a < id_at ?h b) ?keep"
    by (rule sorted_wrt_filter)
  then have "sorted_wrt (\<lambda>a b. id_at h' a < id_at h' b) ?keep"
    by (rule sorted_wrt_mono_rel[rotated]) (simp add: same_id)
  then have srt': "sorted_wrt (<) (map (id_at h') ?keep)"
    by (simp add: sorted_wrt_map)
  have bnd': "\<forall>a\<in>set ?keep. id_at h' a < id_counter s"
    using bnd same_id by simp
  have ok': "ids_ok s'"
    unfolding ids_ok_def s' using lp' srt' bnd' by simp
  have kept: "ids_kept s s'"
    unfolding ids_kept_def s' using lh same_id by simp
  from ok' kept show ?thesis ..
qed

lemma run_ids:
  assumes "ids_ok s" and "run d calls s = Inr s'"
  shows "ids_ok s' \<and> ids_kept s s'"
  using assms
proof (induction calls arbitrary: s)
  case Nil
  then show ?case by (simp add: ids_kept_refl)
next
  case (Cons c cs)
  show ?case
  proof (cases c)
    case (AddObject obj_id n meth buf)
    with Cons.prems(2) obtain t where t: "add_object d s obj_id n meth buf = Inr t"
      and r: "run d cs t = Inr s'"
      by (auto simp: bindE_eq_Inr)
    from add_object_ids[OF Cons.prems(1) t] have "ids_ok t" and st: "ids_kept s t" by simp_all
    from Cons.IH[OF \<open>ids_ok t\<close> r] st show ?thesis using ids_kept_trans by blast
  next
    case ClearDead
    with Cons.prems(2) obtain t where t: "clear_dead s = Inr t" and r: "run d cs t = Inr s'"
      by (auto simp: bindE_eq_Inr)
    from clear_dead_ids[OF Cons.prems(1) t] have "ids_ok t" and st: "ids_kept s t" by simp_all
    from Cons.IH[OF \<open>ids_ok t\<close> r] st show ?thesis using ids_kept_trans by blast
  qed
qed

lemma id_info:
  assumes lp: "live_ptrs (heap s) (agents s)"
  shows "get_info d s grp ''id'' = Inr (Ints (map (id_at (heap s)) (agents s)))"
proof -
  let ?body = "\<lambda>i b. bindE (deref (heap s) (agents s ! i)) (\<lambda>ag. Inr (b @ [a_id ag]))"
  let ?I = "\<lambda>i b. b = map (id_at (heap s)) (take i (agents s))"
  have "\<exists>b. iterate [0..<length (agents s)] ?body [] = Inr b \<and> ?I (length (agents s)) b"
  proof (rule iterate_upt_total[of ?I])
    show "?I 0 []" by simp
    show "0 \<le> length (agents s)" by simp
    fix i b assume i: "i < length (agents s)" and b: "?I i b"
    from lp nth_mem[OF i] obtain ag where ag: "deref (heap s) (agents s ! i) = Inr ag"
      unfolding live_ptrs_def by blast
    then have "id_at (heap s) (agents s ! i) = a_id ag" by (simp add: id_at_def)
    then have "?I (Suc i) (b @ [a_id ag])" using b i by (simp add: take_Suc_conv_app_nth)
    with ag show "\<exists>b'. ?body i b = Inr b' \<and> ?I (Suc i) b'" by simp
  qed
  then show ?thesis by (auto simp: get_info_def)
qed

lemma fresh_ids_ok: "\<exists>s. reset (TransCity_new d id0 vw0 vh0) = Inr s \<and> ids_ok s"
  by (simp add: ids_ok_def live_ptrs_def reset_def TransCity_new_def Let_def)

text \<open>C1: let the population's ids be in order (as they are after \<open>reset\<close> on a new engine)
  and let any sequence of \<open>add_object\<close> and \<open>clear_dead\<close> calls return. Then the ids are in
  order again: \<open>get_info("id")\<close> reports strictly increasing, hence pairwise distinct, ids;
  the counter has not gone back; every agent that was there before the calls has the id it
  had (compaction does not change ids); and every agent created by the calls has an id
  that had not been issued before them.\<close>

theorem agent_ids_unique_and_stable:
  assumes "ids_ok s" and "run d calls s = Inr s'"
  shows "ids_ok s' \<and> ids_kept s s'
       \<and> (\<exists>ids. get_info d s' grp ''id'' = Inr (Ints ids) \<and> sorted_wrt (<) ids \<and> distinct ids)"
proof -
  from run_ids[OF assms] have ok: "ids_ok s'" and kept: "ids_kept s s'" by simp_all
  let ?ids = "map (id_at (heap s')) (agents s')"
  from ok have lp: "live_ptrs (heap s') (agents s')" and srt: "sorted_wrt (<) ?ids"
    by (simp_all add: ids_ok_def)
  have dst: "distinct ?ids" using srt by (simp add: strict_sorted_iff)
  have "get_info d s' grp ''id'' = Inr (Ints ?ids)" by (rule id_info[OF lp])
  with ok kept srt dst show ?thesis by blast
qed

lemmas run_simps = mixed_simps add_object_def for_upto_def add_car_custom_def add_car_random_def
  place_agent_def new_agent_def set_pos_def at2_def rd_def clear_dead_def clear_dead_round_def
  init_reward_def neutral_reward_def get_info_def upt_rec

lemma mixed_run:
  "\<exists>s'. run sample_deps [AddObject 0 2 ''custom'' [3, 4, 5, 6], ClearDead, AddObject 0 1 ''random'' []]
          mixed_city = Inr s'
        \<and> get_info sample_deps s' 0 ''id'' = Inr (Ints [0, 2, 3, 4, 5])"
  by (simp add: run_simps)

theorem agent_ids_unique_and_stable_witness:
  "ids_ok mixed_city
   \<and> (\<exists>s'. run sample_deps [AddObject 0 2 ''custom'' [3, 4, 5, 6], ClearDead, AddObject 0 1 ''random'' []]
             mixed_city = Inr s'
          \<and> get_info sample_deps s' 0 ''id'' = Inr (Ints [0, 2, 3, 4, 5])
          \<and> ids_ok s' \<and> ids_kept mixed_city s')"
proof -
  have ok: "ids_ok mixed_city"
    by (simp add: ids_ok_def id_at_def mixed_simps)
  from mixed_run obtain s' where
    r: "run sample_deps [AddObject 0 2 ''custom'' [3, 4, 5, 6], ClearDead, AddObject 0 1 ''random'' []]
          mixed_city = Inr s'"
    and i: "get_info sample_deps s' 0 ''id'' = Inr (Ints [0, 2, 3, 4, 5])"
    by blast
  from agent_ids_unique_and_stable[OF ok r, of 0] have "ids_ok s'" and "ids_kept mixed_city s'"
    by simp_all
  with ok r i show ?thesis by blast
qed

end
